theory Spec2Isabelle
  imports Complex_Main "HOL-Library.Multiset" "HOL-Library.Product_Lexorder"
    "HOL-Library.List_Lexorder" "HOL-Library.Char_ord"
begin

chapter \<open>fc2-live-dl: the live-capture engine of \<^verbatim>\<open>fc2_live_dl.py\<close>\<close>

text \<open>
  Part I embeds the functions of the Python source, component by component, under the
  names the source gives them. Part II states and proves the properties.
  Python exceptions are values of \<open>py_error\<close>; a function that can raise returns
  \<open>py_error + 'a\<close> with \<open>Inl\<close> for the exception. Python integers are \<open>int\<close>.
\<close>

section \<open>Part I: the program\<close>

subsection \<open>Exceptions and logging\<close>

datatype py_error =
    IndexError
  | ValueError
  | KeyError
  | StreamFinished
  | EmptyPlaylistException
  | ServerDisconnection int
  | PaidProgramDisconnection
  | LoginRequiredError
  | MultipleConnectionError
  | TimeoutError
  | TypeError
  | TransportError string

datatype loglevel = Error | Warn | Info | Debug | Trace

text \<open>
  A call of a \<open>Logger\<close> method is recorded as its level and its arguments (strings,
  integers and exceptions); whether the line is printed depends on the process-wide log
  level and is not modelled.
\<close>

datatype log_arg = S string | I int | E py_error

type_synonym log_entry = "loglevel \<times> log_arg list"

subsection \<open>\<open>FC2LiveDL\<close>: mode tables and playlist selection\<close>

text \<open>
  The class constants are Python dicts; their insertion order matters to
  \<open>_format_mode\<close>, so they are association lists.
\<close>

definition STREAM_QUALITY :: "(string \<times> int) list" where
  "STREAM_QUALITY =
     [(''150Kbps'', 10), (''400Kbps'', 20), (''1.2Mbps'', 30),
      (''2Mbps'', 40), (''3Mbps'', 50), (''sound'', 90)]"

definition STREAM_LATENCY :: "(string \<times> int) list" where
  "STREAM_LATENCY = [(''low'', 0), (''high'', 1), (''mid'', 2)]"

text \<open>A playlist entry is a dict with the keys \<open>url\<close> and \<open>mode\<close>.\<close>

record playlist =
  url :: string
  mode :: int

text \<open>The two entries of \<open>self.params\<close> that playlist selection reads.\<close>

record params =
  quality :: string
  latency :: string

text \<open>Subscription \<open>d[k]\<close> of a dict: \<open>KeyError\<close> on a missing key.\<close>

definition dict_get :: "('k \<times> 'v) list \<Rightarrow> 'k \<Rightarrow> py_error + 'v" where
  "dict_get d k = (case map_of d k of None \<Rightarrow> Inl KeyError | Some v \<Rightarrow> Inr v)"

text \<open>
  \<^verbatim>\<open>
  def _get_mode(self):
      mode = 0
      mode += self.STREAM_QUALITY[self.params['quality']]
      mode += self.STREAM_LATENCY[self.params['latency']]
      return mode
  \<close>
\<close>

definition get_mode :: "params \<Rightarrow> py_error + int" where
  "get_mode ps =
     (case dict_get STREAM_QUALITY (quality ps) of
        Inl e \<Rightarrow> Inl e
      | Inr q \<Rightarrow>
          (case dict_get STREAM_LATENCY (latency ps) of
             Inl e \<Rightarrow> Inl e
           | Inr l \<Rightarrow> Inr (0 + q + l)))"

text \<open>
  \<^verbatim>\<open>
  def dict_search(haystack, needle):
      return list(haystack.keys())[list(haystack.values()).index(needle)]
  \<close>
  \<open>list.index\<close> returns the first position of the needle and raises
  \<open>ValueError\<close> when it is absent.
\<close>

fun list_index :: "'a list \<Rightarrow> 'a \<Rightarrow> nat option" where
  "list_index [] y = None"
| "list_index (x # xs) y =
     (if x = y then Some 0 else map_option Suc (list_index xs y))"

definition dict_search :: "(string \<times> int) list \<Rightarrow> int \<Rightarrow> py_error + string" where
  "dict_search haystack needle =
     (case list_index (map snd haystack) needle of
        None \<Rightarrow> Inl ValueError
      | Some i \<Rightarrow> Inr (map fst haystack ! i))"

text \<open>
  \<^verbatim>\<open>
  def _format_mode(self, mode):
      latency = dict_search(self.STREAM_LATENCY, mode % 10)
      quality = dict_search(self.STREAM_QUALITY, mode // 10 * 10)
      return quality, latency
  \<close>
  Python's \<open>%\<close> and \<open>//\<close> round towards minus infinity, as \<open>mod\<close> and
  \<open>div\<close> on \<open>int\<close> do.
\<close>

definition format_mode :: "int \<Rightarrow> py_error + (string \<times> string)" where
  "format_mode m =
     (case dict_search STREAM_LATENCY (m mod 10) of
        Inl e \<Rightarrow> Inl e
      | Inr l \<Rightarrow>
          (case dict_search STREAM_QUALITY (m div 10 * 10) of
             Inl e \<Rightarrow> Inl e
           | Inr q \<Rightarrow> Inr (q, l)))"

text \<open>
  \<^verbatim>\<open>
  def _merge_playlists(self, hls_info):
      playlists = []
      for name in ['playlists', 'playlists_high_latency', 'playlists_middle_latency']:
          if name in hls_info:
              playlists.extend(hls_info[name])
      return playlists
  \<close>
  The HLS information is a dict from names to lists of playlist entries.
\<close>

type_synonym hls_info = "string \<rightharpoonup> playlist list"

definition merge_playlists :: "hls_info \<Rightarrow> playlist list" where
  "merge_playlists info =
     foldl (\<lambda>playlists name.
              case info name of None \<Rightarrow> playlists | Some ps \<Rightarrow> playlists @ ps)
       [] [''playlists'', ''playlists_high_latency'', ''playlists_middle_latency'']"

text \<open>
  \<^verbatim>\<open>
  def _sort_playlists(self, merged_playlists):
      def key_map(playlist):
          mode = playlist['mode']
          if mode >= 90:
              return mode - 90
          return mode
      return sorted(merged_playlists, reverse=True, key=key_map)
  \<close>
  \<open>sorted\<close> is stable; with \<open>reverse=True\<close> it reverses the list, sorts it
  stably in ascending order of the key and reverses the result, so that entries with
  equal keys keep their original order.
\<close>

definition key_map :: "playlist \<Rightarrow> int" where
  "key_map p = (if mode p \<ge> 90 then mode p - 90 else mode p)"

definition sort_playlists :: "playlist list \<Rightarrow> playlist list" where
  "sort_playlists merged_playlists = rev (sort_key key_map (rev merged_playlists))"

text \<open>
  \<^verbatim>\<open>
  def _get_playlist_or_best(self, sorted_playlists, mode=None):
      playlist = None
      for p in sorted_playlists:
          if p['mode'] == mode:
              playlist = p
      if playlist is None:
          playlist = sorted_playlists[0]
          self._logger.warn('Requested quality', self._format_mode(mode), 'is not available')
          self._logger.warn('falling back to next best quality',
                            self._format_mode(playlist['mode']))
      return playlist
  \<close>
  The loop has no \<open>break\<close>: the last entry of the requested mode wins. The arguments
  of a \<open>warn\<close> call are evaluated before the call, so an exception of
  \<open>_format_mode\<close> leaves the function. The result carries the warnings logged.
\<close>

definition find_mode :: "playlist list \<Rightarrow> int \<Rightarrow> playlist option" where
  "find_mode sorted_playlists m =
     foldl (\<lambda>found p. if mode p = m then Some p else found) None sorted_playlists"

definition get_playlist_or_best ::
  "playlist list \<Rightarrow> int \<Rightarrow> py_error + (playlist \<times> log_entry list)" where
  "get_playlist_or_best sorted_playlists m =
     (case find_mode sorted_playlists m of
        Some p \<Rightarrow> Inr (p, [])
      | None \<Rightarrow>
          (case sorted_playlists of
             [] \<Rightarrow> Inl IndexError
           | p # _ \<Rightarrow>
               (case format_mode m of
                  Inl e \<Rightarrow> Inl e
                | Inr (q, l) \<Rightarrow>
                    (case format_mode (mode p) of
                       Inl e \<Rightarrow> Inl e
                     | Inr (q', l') \<Rightarrow>
                         Inr (p, [(Warn, [S ''Requested quality'', S q, S l, S ''is not available'']),
                                  (Warn, [S ''falling back to next best quality'', S q', S l'])])))))"

text \<open>
  \<^verbatim>\<open>
  def _get_hls_url(self, hls_info):
      mode = self._get_mode()
      p_merged = self._merge_playlists(hls_info)
      p_sorted = self._sort_playlists(p_merged)
      playlist = self._get_playlist_or_best(p_sorted, mode)
      return playlist['url']
  \<close>
\<close>

definition get_hls_url :: "params \<Rightarrow> hls_info \<Rightarrow> py_error + (string \<times> log_entry list)" where
  "get_hls_url ps info =
     (case get_mode ps of
        Inl e \<Rightarrow> Inl e
      | Inr m \<Rightarrow>
          (let p_merged = merge_playlists info;
               p_sorted = sort_playlists p_merged
           in case get_playlist_or_best p_sorted m of
                Inl e \<Rightarrow> Inl e
              | Inr (p, warnings) \<Rightarrow> Inr (url p, warnings)))"

subsection \<open>\<open>FC2WebSocket\<close>: the control channel\<close>

text \<open>
  An outbound message is the dict \<open>{'name', 'arguments', 'id'}\<close> (the field
  \<open>ident\<close> is the key \<open>id\<close>). Inbound frames are told apart by their name; a
  \<open>_response_\<close> carries its id and its arguments, a \<open>control_disconnection\<close> its
  code, a \<open>comment\<close> its list of comments. Frames are well formed: the keys the
  loop reads are present.
\<close>

record message =
  name :: string
  arguments :: hls_info
  ident :: int

datatype frame =
    Connect_complete
  | Response int hls_info
  | Control_disconnection int
  | Comment "string list"
  | Other_frame string

datatype dump_line = Outbound message | Inbound frame

text \<open>
  The attributes of an \<open>FC2WebSocket\<close>. \<open>sent\<close> lists the messages handed to
  \<open>self._ws.send_json\<close>, oldest first; \<open>slept\<close> the delays handed to
  \<open>asyncio.sleep\<close>. \<open>heartbeat_times\<close> is a history variable: for every heartbeat
  sent, the clock reading of the check before it and the reading stored after it.
\<close>

record ws_state =
  msg_id :: int
  msg_responses :: "int \<rightharpoonup> hls_info"
  last_heartbeat :: real
  is_ready :: bool
  comments :: "string list"
  output_file :: "dump_line list option"
  sent :: "message list"
  slept :: "nat list"
  ws_log :: "log_entry list"
  heartbeat_times :: "(real \<times> real) list"

definition heartbeat_interval :: real where
  "heartbeat_interval = 30"

text \<open>
  \<^verbatim>\<open>
  def __init__(self, session, url, *, output_file=None):
      self._msg_id = 0
      self._msg_responses = AsyncMap()
      self._last_heartbeat = 0
      self._is_ready = False
      self.comments = asyncio.Queue()
      self._output_file = None
      if output_file is not None:
          self._output_file = open(output_file, 'w')
  \<close>
\<close>

definition ws_init :: "bool \<Rightarrow> ws_state" where
  "ws_init dump =
     \<lparr>msg_id = 0, msg_responses = Map.empty, last_heartbeat = 0, is_ready = False,
      comments = [], output_file = (if dump then Some [] else None),
      sent = [], slept = [], ws_log = [], heartbeat_times = []\<rparr>"

definition write_dump :: "dump_line \<Rightarrow> ws_state \<Rightarrow> ws_state" where
  "write_dump l s =
     (case output_file s of
        None \<Rightarrow> s
      | Some ls \<Rightarrow> s\<lparr>output_file := Some (ls @ [l])\<rparr>)"

definition ws_logger :: "loglevel \<Rightarrow> log_arg list \<Rightarrow> ws_state \<Rightarrow> ws_state" where
  "ws_logger lvl args s = s\<lparr>ws_log := ws_log s @ [(lvl, args)]\<rparr>"

text \<open>
  \<^verbatim>\<open>
  async def _send_message(self, name, arguments={}):
      self._msg_id += 1
      msg = {'name': name, 'arguments': arguments, 'id': self._msg_id}
      if self._output_file is not None:
          self._output_file.write('> ') ...
      await self._ws.send_json(msg)
      return self._msg_id
  \<close>
  Nothing is awaited between the increment and the construction of the message, so the
  step up to \<open>send_json\<close> is atomic under asyncio's cooperative scheduling, and the
  messages reach \<open>send_json\<close> in the order of their ids. The model returns the id of
  the message itself (the source reads \<open>self._msg_id\<close> again after the await).
\<close>

definition send_message :: "string \<Rightarrow> hls_info \<Rightarrow> ws_state \<Rightarrow> int \<times> ws_state" where
  "send_message nm args s =
     (let s1 = s\<lparr>msg_id := msg_id s + 1\<rparr>;
          msg = \<lparr>name = nm, arguments = args, ident = msg_id s1\<rparr>;
          s2 = write_dump (Outbound msg) s1;
          s3 = s2\<lparr>sent := sent s2 @ [msg]\<rparr>
      in (msg_id s3, s3))"

text \<open>
  \<open>_send_message_and_wait\<close> sends the request and then races the response, the
  receive loop and the timer. Which of the three wins is decided outside the function;
  the outcome is an input of the model.
\<close>

datatype wait_outcome =
    Timed_out
  | Responded hls_info
  | Main_loop_ended py_error

definition send_message_and_wait ::
  "string \<Rightarrow> wait_outcome \<Rightarrow> ws_state \<Rightarrow> (py_error + hls_info option) \<times> ws_state" where
  "send_message_and_wait nm outcome s =
     (case send_message nm Map.empty s of
        (mid, s1) \<Rightarrow>
          (case outcome of
             Main_loop_ended e \<Rightarrow> (Inl e, s1)
           | Timed_out \<Rightarrow> (Inr None, s1)
           | Responded args \<Rightarrow> (Inr (Some args), s1\<lparr>msg_responses := (msg_responses s1)(mid := None)\<rparr>)))"

definition sleep :: "nat \<Rightarrow> ws_state \<Rightarrow> ws_state" where
  "sleep d s = s\<lparr>slept := slept s @ [d]\<rparr>"

definition max_tries :: nat where
  "max_tries = 5"

text \<open>
  \<^verbatim>\<open>
  async def get_hls_information(self):
      msg = None
      tries = 0
      max_tries = 5
      while msg is None and tries < max_tries:
          msg = await self._send_message_and_wait('get_hls_information', timeout=5)
          backoff_delay = 2 ** tries
          tries += 1
          if msg is None:
              self._logger.warn('Timeout reached waiting for HLS information, retrying in', backoff_delay, 'seconds')
              await asyncio.sleep(backoff_delay)
          elif 'playlists' not in msg['arguments']:
              msg = None
              self._logger.warn('Received empty playlist, retrying in', backoff_delay, 'seconds')
              await asyncio.sleep(backoff_delay)
      if tries == max_tries:
          self._logger.error('Gave up after', tries, 'tries')
          raise self.EmptyPlaylistException()
      return msg['arguments']
  \<close>
  The counter \<open>tries\<close> starts at 0 and only counts up, so it is a \<open>nat\<close>. The
  outcome of the attempt made with counter \<open>tries\<close> is \<open>env tries\<close>.
\<close>

function hls_loop ::
  "(nat \<Rightarrow> wait_outcome) \<Rightarrow> hls_info option \<Rightarrow> nat \<Rightarrow> ws_state
     \<Rightarrow> (py_error + (hls_info option \<times> nat)) \<times> ws_state" where
  "hls_loop env msg tries s =
     (if msg = None \<and> tries < max_tries then
        (case send_message_and_wait ''get_hls_information'' (env tries) s of
           (Inl e, s1) \<Rightarrow> (Inl e, s1)
         | (Inr None, s1) \<Rightarrow>
             hls_loop env None (tries + 1)
               (sleep (2 ^ tries)
                 (ws_logger Warn [S ''Timeout reached waiting for HLS information, retrying in'',
                                  I (2 ^ tries), S ''seconds''] s1))
         | (Inr (Some args), s1) \<Rightarrow>
             (if ''playlists'' \<notin> dom args then
                hls_loop env None (tries + 1)
                  (sleep (2 ^ tries)
                    (ws_logger Warn [S ''Received empty playlist, retrying in'',
                                     I (2 ^ tries), S ''seconds''] s1))
              else hls_loop env (Some args) (tries + 1) s1))
      else (Inr (msg, tries), s))"
  by pat_completeness auto
termination
  by (relation "measure (\<lambda>(env, msg, tries, s). max_tries - tries)") auto

declare hls_loop.simps [simp del]

definition get_hls_information ::
  "(nat \<Rightarrow> wait_outcome) \<Rightarrow> ws_state \<Rightarrow> (py_error + hls_info) \<times> ws_state" where
  "get_hls_information env s =
     (case hls_loop env None 0 s of
        (Inl e, s1) \<Rightarrow> (Inl e, s1)
      | (Inr (msg, tries), s1) \<Rightarrow>
          (if tries = max_tries then
             (Inl EmptyPlaylistException,
              ws_logger Error [S ''Gave up after'', I (int tries), S ''tries''] s1)
           else (case msg of
                   None \<Rightarrow> (Inl TypeError, s1)
                 | Some args \<Rightarrow> (Inr args, s1))))"

text \<open>
  \<^verbatim>\<open>
  async def _try_heartbeat(self):
      if time.time() - self._last_heartbeat < self.heartbeat_interval:
          return
      self._logger.debug('heartbeat')
      await self._send_message('heartbeat')
      self._last_heartbeat = time.time()
  \<close>
  The two readings of the clock (\<open>time.time()\<close>, seconds as real numbers) are
  inputs: \<open>now\<close> for the check, \<open>now'\<close> for the assignment after the send.
\<close>

definition try_heartbeat :: "real \<Rightarrow> real \<Rightarrow> ws_state \<Rightarrow> ws_state" where
  "try_heartbeat now now' s =
     (if now - last_heartbeat s < heartbeat_interval then s
      else (let s1 = ws_logger Debug [S ''heartbeat''] s;
                s2 = snd (send_message ''heartbeat'' Map.empty s1)
            in s2\<lparr>last_heartbeat := now',
                  heartbeat_times := heartbeat_times s2 @ [(now, now')]\<rparr>))"

text \<open>
  The body of the receive loop between the receive and the heartbeat:
  \<^verbatim>\<open>
  if msg['name'] == 'connect_complete':
      self._is_ready = True
  elif msg['name'] == '_response_':
      await self._msg_responses.put(msg['id'], msg)
  elif msg['name'] == 'control_disconnection':
      code = msg['arguments']['code']
      if code == 4101:   raise self.PaidProgramDisconnection()
      elif code == 4507: raise self.LoginRequiredError()
      elif code == 4512: raise self.MultipleConnectionError()
      else:              raise self.ServerDisconnection(code)
  elif msg['name'] == 'comment':
      for comment in msg['arguments']['comments']:
          await self.comments.put(comment)
  \<close>
\<close>

fun handle_frame :: "frame \<Rightarrow> ws_state \<Rightarrow> py_error + ws_state" where
  "handle_frame Connect_complete s = Inr (s\<lparr>is_ready := True\<rparr>)"
| "handle_frame (Response i args) s = Inr (s\<lparr>msg_responses := (msg_responses s)(i \<mapsto> args)\<rparr>)"
| "handle_frame (Control_disconnection code) s =
     (if code = 4101 then Inl PaidProgramDisconnection
      else if code = 4507 then Inl LoginRequiredError
      else if code = 4512 then Inl MultipleConnectionError
      else Inl (ServerDisconnection code))"
| "handle_frame (Comment cs) s = Inr (s\<lparr>comments := comments s @ cs\<rparr>)"
| "handle_frame (Other_frame n) s = Inr s"

text \<open>
  \<^verbatim>\<open>
  async def _main_loop(self):
      while True:
          msg = await asyncio.wait_for(self._ws.receive_json(), self.heartbeat_interval)
          if self._output_file is not None: ...
          <the dispatch above>
          await self._try_heartbeat()
  \<close>
  The loop runs over what the socket delivers: a frame (with the two clock readings of
  the heartbeat check that follows it) or the expiry of the receive timeout. It ends only
  with an exception; on a finite input it is left waiting for the next frame
  (\<open>None\<close>). Trace-level log calls are left out.
\<close>

datatype recv = Recv frame real real | Recv_timeout

fun main_loop :: "recv list \<Rightarrow> ws_state \<Rightarrow> py_error option \<times> ws_state" where
  "main_loop [] s = (None, s)"
| "main_loop (Recv_timeout # rest) s = (Some TimeoutError, s)"
| "main_loop (Recv f now now' # rest) s =
     (let s1 = write_dump (Inbound f) s
      in case handle_frame f s1 of
           Inl e \<Rightarrow> (Some e, s1)
         | Inr s2 \<Rightarrow> main_loop rest (try_heartbeat now now' s2))"

text \<open>
  One connection is used by the receive loop and by the caller of
  \<open>get_hls_information\<close>; the tasks interleave at their awaits. A session is a
  sequence of operations on the shared state, each atomic: a batch of receive-loop
  iterations, a call of \<open>_send_message\<close>, of \<open>_send_message_and_wait\<close>, or of
  \<open>get_hls_information\<close>.
\<close>

datatype ws_op =
    Op_main_loop "recv list"
  | Op_send_message string
  | Op_send_message_and_wait string wait_outcome
  | Op_get_hls_information "nat \<Rightarrow> wait_outcome"

fun ws_op_step :: "ws_op \<Rightarrow> ws_state \<Rightarrow> ws_state" where
  "ws_op_step (Op_main_loop rs) s = snd (main_loop rs s)"
| "ws_op_step (Op_send_message nm) s = snd (send_message nm Map.empty s)"
| "ws_op_step (Op_send_message_and_wait nm outcome) s = snd (send_message_and_wait nm outcome s)"
| "ws_op_step (Op_get_hls_information env) s = snd (get_hls_information env s)"

definition ws_run :: "ws_op list \<Rightarrow> ws_state \<Rightarrow> ws_state" where
  "ws_run ops s = foldl (\<lambda>s' op. ws_op_step op s') s ops"

text \<open>
  An attempt of \<open>get_hls_information\<close> fails, in the sense of its loop, when it times
  out or when the response has no \<open>playlists\<close> key.
\<close>

definition attempt_fails :: "wait_outcome \<Rightarrow> bool" where
  "attempt_fails outcome =
     (case outcome of
        Timed_out \<Rightarrow> True
      | Responded args \<Rightarrow> ''playlists'' \<notin> dom args
      | Main_loop_ended e \<Rightarrow> False)"

subsection \<open>Invariants of the control channel\<close>

text \<open>
  The counter \<open>_msg_id\<close> is the number of messages sent so far, and the messages carry
  the ids 1, 2, 3, ... in the order they were sent.
\<close>

definition ids_ok :: "ws_state \<Rightarrow> bool" where
  "ids_ok s \<longleftrightarrow>
     msg_id s = int (length (sent s)) \<and>
     map ident (sent s) = map int [1..<Suc (length (sent s))]"

text \<open>
  Heartbeats are spaced when every heartbeat's check reads the clock at least the
  heartbeat interval after the reading stored by the heartbeat before it; and
  \<open>_last_heartbeat\<close> is the reading stored by the last heartbeat sent.
\<close>

fun spaced :: "(real \<times> real) list \<Rightarrow> bool" where
  "spaced (h1 # h2 # hs) \<longleftrightarrow> heartbeat_interval \<le> fst h2 - snd h1 \<and> spaced (h2 # hs)"
| "spaced hs \<longleftrightarrow> True"

definition hb_ok :: "ws_state \<Rightarrow> bool" where
  "hb_ok s \<longleftrightarrow>
     spaced (heartbeat_times s) \<and>
     (heartbeat_times s = [] \<or> last_heartbeat s = snd (last (heartbeat_times s)))"

subsection \<open>\<open>HLSDownloader\<close>: the playlist\<close>

text \<open>
  The outcome of \<open>self._session.get(url)\<close>: the request raises (a transport error, with
  its message), or a response arrives with a status; reading its body (\<open>resp.text()\<close>,
  \<open>resp.read()\<close>) raises in turn (\<open>Inl\<close>) or gives the content (\<open>Inr\<close>).
\<close>

datatype 'b http = Get_failed string | Http_response int "string + 'b"

text \<open>
  A Python \<open>str\<close> is a \<open>string\<close> whose characters are code points below 256.
  \<open>str.strip()\<close> removes the characters for which \<open>str.isspace\<close> holds from both
  ends: below 256 these are the code points 9 to 13, 28 to 32, 133 and 160.
\<close>

definition py_isspace :: "char \<Rightarrow> bool" where
  "py_isspace c =
     (let n = (of_char c :: nat)
      in (9 \<le> n \<and> n \<le> 13) \<or> (28 \<le> n \<and> n \<le> 32) \<or> n = 133 \<or> n = 160)"

definition py_strip :: "string \<Rightarrow> string" where
  "py_strip line = rev (dropWhile py_isspace (rev (dropWhile py_isspace line)))"

text \<open>
  \<open>str.split(sep)\<close> with a one-character separator cuts at every occurrence of it; the
  result has one more element than the string has separators. \<open>sep.join\<close> is its
  inverse.
\<close>

fun py_split :: "char \<Rightarrow> string \<Rightarrow> string list" where
  "py_split sep [] = [[]]"
| "py_split sep (c # cs) =
     (if c = sep then [] # py_split sep cs
      else (case py_split sep cs of
              [] \<Rightarrow> [[c]]
            | l # ls \<Rightarrow> (c # l) # ls))"

fun py_join :: "char \<Rightarrow> string list \<Rightarrow> string" where
  "py_join sep [] = []"
| "py_join sep [l] = l"
| "py_join sep (l # ls) = l @ sep # py_join sep ls"

text \<open>
  \<^verbatim>\<open>
  async def _get_fragment_urls(self):
      async with self._session.get(self._url) as resp:
          if resp.status == 403:
              raise self.StreamFinished()
          playlist = await resp.text()
          return [line.strip() for line in playlist.split('\n')
                  if len(line) > 0 and not line[0] == '#']
  \<close>
\<close>

definition keep_line :: "string \<Rightarrow> bool" where
  "keep_line line = (length line > 0 \<and> \<not> (case line of [] \<Rightarrow> False | c # _ \<Rightarrow> c = CHR ''#''))"

definition get_fragment_urls :: "string http \<Rightarrow> py_error + string list" where
  "get_fragment_urls r =
     (case r of
        Get_failed ex \<Rightarrow> Inl (TransportError ex)
      | Http_response status body \<Rightarrow>
          (if status = 403 then Inl StreamFinished
           else (case body of
                   Inl ex \<Rightarrow> Inl (TransportError ex)
                 | Inr playlist \<Rightarrow>
                     Inr [py_strip line. line \<leftarrow> py_split CHR ''\<newline>'' playlist, keep_line line])))"

subsection \<open>\<open>HLSDownloader\<close>: the fragment pipeline\<close>

text \<open>
  Entries of \<open>_frag_urls\<close> are the tuples \<open>(frag_idx, (url, tries))\<close>, entries of
  \<open>_frag_data\<close> the tuples \<open>(frag_idx, bytes)\<close>. Both queues are
  \<open>asyncio.PriorityQueue(100)\<close>: \<open>get\<close> removes the least entry in the
  lexicographic order of the tuples, \<open>put\<close> waits while the queue holds 100 entries.
  The content of a queue is kept as a sorted list: \<open>put\<close> inserts in order, \<open>get\<close>
  takes the head.
\<close>

type_synonym bytes = string
type_synonym url_entry = "int \<times> string \<times> int"
type_synonym data_entry = "int \<times> bytes"

definition maxsize :: nat where
  "maxsize = 100"

definition pq_full :: "'a list \<Rightarrow> bool" where
  "pq_full q \<longleftrightarrow> maxsize \<le> length q"

definition pq_put :: "'a::linorder \<Rightarrow> 'a list \<Rightarrow> 'a list" where
  "pq_put x q = insort x q"

text \<open>
  The state of one \<open>HLSDownloader\<close>: the two queues; the locals of \<open>_fill_queue\<close>
  (\<open>last_fragment\<close>, \<open>frag_idx\<close>, and in \<open>pending\<close> the fragments its \<open>for\<close>
  loop has still to put); whether \<open>_fill_queue\<close> has returned; for every worker the
  entry it holds between its \<open>get\<close> and its \<open>put\<close>; the local \<open>index\<close> of
  \<open>read\<close>. Two history variables record what has happened: \<open>yielded\<close>, the
  payloads \<open>read\<close> has yielded with the sequence numbers they were dequeued under, and
  \<open>poller_puts\<close>, the entries \<open>_fill_queue\<close> has put.
\<close>

record hls_state =
  frag_urls :: "url_entry list"
  frag_data :: "data_entry list"
  last_fragment :: "string option"
  frag_idx :: int
  pending :: "string list"
  poller_done :: bool
  workers :: "url_entry option list"
  index :: int
  yielded :: "data_entry list"
  poller_puts :: "url_entry list"
  hls_log :: "log_entry list"

definition hls_init :: "nat \<Rightarrow> hls_state" where
  "hls_init threads =
     \<lparr>frag_urls = [], frag_data = [], last_fragment = None, frag_idx = 0, pending = [],
      poller_done = False, workers = replicate threads None, index = 0, yielded = [],
      poller_puts = [], hls_log = []\<rparr>"

definition hls_logger :: "loglevel \<Rightarrow> log_arg list \<Rightarrow> hls_state \<Rightarrow> hls_state" where
  "hls_logger lvl args s = s\<lparr>hls_log := hls_log s @ [(lvl, args)]\<rparr>"

text \<open>
  \<^verbatim>\<open>
  async def _fill_queue(self):
      last_fragment = None
      frag_idx = 0
      while True:
          try:
              frags = await self._get_fragment_urls()
              new_idx = 0
              try:
                  new_idx = 1 + frags.index(last_fragment)
              except:
                  pass
              n_new = len(frags) - new_idx
              if n_new > 0:
                  last_fragment_timestamp = time.time()
                  self._logger.debug('Found', n_new, 'new fragments')
              for frag in frags[new_idx:]:
                  last_fragment = frag
                  await self._frag_urls.put((frag_idx, (frag, 0)))
                  frag_idx += 1
              if time.time() - last_fragment_timestamp > 30:
                  self._logger.debug('Timeout receiving new segments')
                  return
              await asyncio.sleep(1)
          except Exception as ex:
              self._logger.error('Error fetching new segments:', ex)
              return
  \<close>
  The loop is cut at its awaits into three steps: \<open>poll\<close> fetches the playlist and
  computes the new fragments; \<open>poller_put\<close> is one iteration of the \<open>for\<close> loop
  (it waits, leaving the state as it is, while the queue is full); \<open>poller_timeout\<close>
  is the return after 30 seconds without a new fragment. The clock is not modelled: the
  timeout may happen whenever the \<open>for\<close> loop is done. A step that is not enabled
  leaves the state unchanged.
\<close>

definition new_fragments :: "string option \<Rightarrow> string list \<Rightarrow> string list" where
  "new_fragments last_frag frags =
     (let new_idx = (case last_frag of
                       None \<Rightarrow> 0
                     | Some lf \<Rightarrow> (case list_index frags lf of None \<Rightarrow> 0 | Some i \<Rightarrow> 1 + i))
      in drop new_idx frags)"

definition poll :: "string http \<Rightarrow> hls_state \<Rightarrow> hls_state" where
  "poll r s =
     (if poller_done s \<or> pending s \<noteq> [] then s
      else (case get_fragment_urls r of
              Inl ex \<Rightarrow>
                (hls_logger Error [S ''Error fetching new segments:'', E ex] s)\<lparr>poller_done := True\<rparr>
            | Inr frags \<Rightarrow>
                (let new = new_fragments (last_fragment s) frags;
                     s1 = (if length new > 0
                           then hls_logger Debug [S ''Found'', I (int (length new)), S ''new fragments''] s
                           else s)
                 in s1\<lparr>pending := new\<rparr>)))"

definition poller_put :: "hls_state \<Rightarrow> hls_state" where
  "poller_put s =
     (if poller_done s then s
      else (case pending s of
              [] \<Rightarrow> s
            | frag # rest \<Rightarrow>
                (if pq_full (frag_urls s) then s
                 else s\<lparr>last_fragment := Some frag,
                        frag_urls := pq_put (frag_idx s, frag, 0) (frag_urls s),
                        poller_puts := poller_puts s @ [(frag_idx s, frag, 0)],
                        frag_idx := frag_idx s + 1,
                        pending := rest\<rparr>)))"

definition poller_timeout :: "hls_state \<Rightarrow> hls_state" where
  "poller_timeout s =
     (if poller_done s \<or> pending s \<noteq> [] then s
      else (hls_logger Debug [S ''Timeout receiving new segments''] s)\<lparr>poller_done := True\<rparr>)"

text \<open>
  \<^verbatim>\<open>
  async def _download_worker(self, wid):
      while True:
          i, (url, tries) = await self._frag_urls.get()
          self._logger.debug(wid, 'Downloading fragment', i)
          try:
              async with self._session.get(url) as resp:
                  if resp.status > 299:
                      self._logger.error(wid, 'Fragment', i, 'errored:', resp.status)
                      if tries < 5:
                          self._logger.debug(wid, 'Retrying fragment', i)
                          await self._frag_urls.put((i, (url, tries + 1)))
                      else:
                          self._logger.error(wid, 'Gave up on fragment', i, 'after', tries, 'tries')
                          await self._frag_data.put((i, b''))
                  else:
                      await self._frag_data.put((i, await resp.read()))
          except Exception as ex:
              self._logger.error(ex)
  \<close>
  A worker takes two steps per iteration: \<open>worker_get\<close> (enabled when it holds nothing
  and the queue is not empty) and \<open>worker_resp\<close>, the arrival of the response together
  with the \<open>put\<close> that follows it; while the queue of that \<open>put\<close> is full the worker
  waits, holding its entry. \<open>_download\<close> cancels the workers as soon as
  \<open>_fill_queue\<close> returns, so no worker takes a step after that (the cancellation is
  not an \<open>Exception\<close>, so the handler of the worker does not catch it).
\<close>

definition worker_get :: "nat \<Rightarrow> hls_state \<Rightarrow> hls_state" where
  "worker_get wid s =
     (if poller_done s \<or> \<not> wid < length (workers s) then s
      else (case (workers s ! wid, frag_urls s) of
              (None, (i, u, tries) # rest) \<Rightarrow>
                (hls_logger Debug [I (int wid), S ''Downloading fragment'', I i] s)
                  \<lparr>frag_urls := rest, workers := (workers s)[wid := Some (i, u, tries)]\<rparr>
            | _ \<Rightarrow> s))"

definition worker_idle :: "nat \<Rightarrow> hls_state \<Rightarrow> hls_state" where
  "worker_idle wid s = s\<lparr>workers := (workers s)[wid := None]\<rparr>"

definition worker_response :: "nat \<Rightarrow> url_entry \<Rightarrow> bytes http \<Rightarrow> hls_state \<Rightarrow> hls_state" where
  "worker_response wid e r s =
     (case e of (i, u, tries) \<Rightarrow>
       (case r of
          Get_failed ex \<Rightarrow> worker_idle wid (hls_logger Error [E (TransportError ex)] s)
        | Http_response status body \<Rightarrow>
            (if status > 299 then
               (if tries < 5 then
                  (if pq_full (frag_urls s) then s
                   else worker_idle wid
                          ((hls_logger Debug [I (int wid), S ''Retrying fragment'', I i]
                             (hls_logger Error [I (int wid), S ''Fragment'', I i, S ''errored:'', I status] s))
                           \<lparr>frag_urls := pq_put (i, u, tries + 1) (frag_urls s)\<rparr>))
                else
                  (if pq_full (frag_data s) then s
                   else worker_idle wid
                          ((hls_logger Error [I (int wid), S ''Gave up on fragment'', I i, S ''after'', I tries, S ''tries'']
                             (hls_logger Error [I (int wid), S ''Fragment'', I i, S ''errored:'', I status] s))
                           \<lparr>frag_data := pq_put (i, []) (frag_data s)\<rparr>)))
             else
               (case body of
                  Inl ex \<Rightarrow> worker_idle wid (hls_logger Error [E (TransportError ex)] s)
                | Inr b \<Rightarrow>
                    (if pq_full (frag_data s) then s
                     else worker_idle wid (s\<lparr>frag_data := pq_put (i, b) (frag_data s)\<rparr>))))))"

definition worker_resp :: "nat \<Rightarrow> bytes http \<Rightarrow> hls_state \<Rightarrow> hls_state" where
  "worker_resp wid r s =
     (if poller_done s \<or> \<not> wid < length (workers s) then s
      else (case workers s ! wid of
              None \<Rightarrow> s
            | Some e \<Rightarrow> worker_response wid e r s))"

text \<open>
  \<^verbatim>\<open>
  async def _read(self, index):
      while True:
          p, frag = await self._frag_data.get()
          if p == index:
              return frag
          await self._frag_data.put((p, frag))
          await asyncio.sleep(0.1)

  async def read(self):
      ...
      index = 0
      while True:
          yield await self._read(index)
          index += 1
  \<close>
  One step of the consumer is one iteration of the loop of \<open>_read\<close>, with the
  \<open>yield\<close> and the increment when the entry is the expected one.
\<close>

definition consumer_read :: "hls_state \<Rightarrow> hls_state" where
  "consumer_read s =
     (case frag_data s of
        [] \<Rightarrow> s
      | (p, frag) # rest \<Rightarrow>
          (if p = index s
           then s\<lparr>frag_data := rest, yielded := yielded s @ [(p, frag)], index := index s + 1\<rparr>
           else s\<lparr>frag_data := pq_put (p, frag) rest\<rparr>))"

text \<open>
  The tasks interleave at their awaits: a run of the downloader is a list of steps, taken
  in any order by the poller, the workers and the consumer.
\<close>

datatype action =
    Poll "string http"
  | Poller_put
  | Poller_timeout
  | Worker_get nat
  | Worker_resp nat "bytes http"
  | Consumer_read

fun step :: "action \<Rightarrow> hls_state \<Rightarrow> hls_state" where
  "step (Poll r) s = poll r s"
| "step Poller_put s = poller_put s"
| "step Poller_timeout s = poller_timeout s"
| "step (Worker_get wid) s = worker_get wid s"
| "step (Worker_resp wid r) s = worker_resp wid r s"
| "step Consumer_read s = consumer_read s"

definition exec :: "action list \<Rightarrow> hls_state \<Rightarrow> hls_state" where
  "exec acts s = foldl (\<lambda>s' a. step a s') s acts"

subsection \<open>Invariants of the fragment pipeline\<close>

text \<open>
  \<open>seqs\<close> is the multiset of the sequence numbers in the pipeline: in the URL queue,
  held by a worker, in the data queue, or yielded. A sequence number is \<open>absent\<close> when
  the poller has assigned it and it is neither queued nor held.
\<close>

definition held :: "'a option list \<Rightarrow> 'a list" where
  "held ws = concat (map (\<lambda>w. case w of None \<Rightarrow> [] | Some e \<Rightarrow> [e]) ws)"

definition seqs :: "hls_state \<Rightarrow> int multiset" where
  "seqs s = mset (map fst (frag_urls s)) + mset (map fst (held (workers s)))
            + mset (map fst (frag_data s)) + mset (map fst (yielded s))"

definition pipeline_inv :: "hls_state \<Rightarrow> bool" where
  "pipeline_inv s \<longleftrightarrow>
     0 \<le> index s \<and> index s \<le> frag_idx s
     \<and> map fst (poller_puts s) = [0..frag_idx s - 1]
     \<and> map fst (yielded s) = [0..index s - 1]
     \<and> seqs s \<subseteq># mset [0..frag_idx s - 1]"

definition absent :: "int \<Rightarrow> hls_state \<Rightarrow> bool" where
  "absent k s \<longleftrightarrow>
     k < frag_idx s \<and> k \<notin> fst ` set (frag_urls s) \<and> k \<notin> fst ` set (held (workers s))
     \<and> k \<notin> fst ` set (frag_data s)"

text \<open>
  The downloader is \<open>halted\<close> at a sequence number when \<open>_fill_queue\<close> has
  returned (the workers are cancelled) and the data queue holds no entry of the sequence
  the consumer expects.
\<close>

definition halted :: "int \<Rightarrow> hls_state \<Rightarrow> bool" where
  "halted k s \<longleftrightarrow> poller_done s \<and> index s = k \<and> k \<notin> fst ` set (frag_data s)"

definition opt_mset :: "'a option \<Rightarrow> 'a multiset" where
  "opt_mset x = (case x of None \<Rightarrow> {#} | Some e \<Rightarrow> {#e#})"

section \<open>Part II: properties\<close>

lemma merge_playlists_eq:
  "merge_playlists info =
     (case info ''playlists'' of None \<Rightarrow> [] | Some ps \<Rightarrow> ps) @
     (case info ''playlists_high_latency'' of None \<Rightarrow> [] | Some ps \<Rightarrow> ps) @
     (case info ''playlists_middle_latency'' of None \<Rightarrow> [] | Some ps \<Rightarrow> ps)"
  by (simp add: merge_playlists_def split: option.splits)

subsection \<open>Ranking of playlists\<close>

lemma sort_playlists_desc:
  "sorted_wrt (\<lambda>p q. key_map p \<ge> key_map q) (sort_playlists ps)"
proof -
  have "sorted (map key_map (sort_key key_map (rev ps)))"
    by (rule sorted_sort_key)
  then have "sorted_wrt (\<lambda>p q. key_map p \<le> key_map q) (sort_key key_map (rev ps))"
    by (simp add: sorted_wrt_map)
  then show ?thesis
    unfolding sort_playlists_def by (simp add: sorted_wrt_rev)
qed

lemma set_sort_playlists: "set (sort_playlists ps) = set ps"
  by (simp add: sort_playlists_def)

lemma mset_sort_playlists: "mset (sort_playlists ps) = mset ps"
  by (simp add: sort_playlists_def)

lemma length_sort_playlists: "length (sort_playlists ps) = length ps"
  by (simp add: sort_playlists_def)

lemma sort_playlists_nth_key:
  assumes "i < j" "j < length (sort_playlists ps)"
  shows "key_map (sort_playlists ps ! j) \<le> key_map (sort_playlists ps ! i)"
  using sort_playlists_desc[of ps] assms by (simp add: sorted_wrt_iff_nth_less)

text \<open>
  The modes the tables can produce keep audio and video apart: an audio mode is at most
  92, so its key is at most 2, and a video mode is at least 10.
\<close>

lemma table_modes_separated:
  assumes "\<forall>p\<in>set ps. \<exists>q\<in>snd ` set STREAM_QUALITY. \<exists>l\<in>snd ` set STREAM_LATENCY. mode p = q + l"
  shows "\<forall>a\<in>set ps. \<forall>v\<in>set ps. mode a \<ge> 90 \<and> mode v < 90 \<longrightarrow> mode a - 90 < mode v"
proof (intro ballI impI)
  fix a v assume "a \<in> set ps" "v \<in> set ps" and h: "mode a \<ge> 90 \<and> mode v < 90"
  with assms have "mode a \<le> 92" "mode v \<ge> 10"
    by (fastforce simp: STREAM_QUALITY_def STREAM_LATENCY_def)+
  then show "mode a - 90 < mode v" by simp
qed

text \<open>
  Claim C5, as stated, fails: \<open>_sort_playlists\<close> compares \<open>mode - 90\<close> of an audio
  entry with the plain mode of a video entry, so an audio entry of mode 92 (key 2) is
  ranked above a video entry of mode 1 (key 1).
\<close>

theorem sort_playlists_audio_counterexample:
  "sort_playlists [\<lparr>url = ''v'', mode = 1\<rparr>, \<lparr>url = ''a'', mode = 92\<rparr>]
     = [\<lparr>url = ''a'', mode = 92\<rparr>, \<lparr>url = ''v'', mode = 1\<rparr>]"
  by (simp add: sort_playlists_def key_map_def)

text \<open>
  Claim C5, amended: \<open>_sort_playlists\<close> returns a permutation of its input. Whenever
  every audio entry's mode minus 90 is smaller than every video entry's mode (as it is for
  all modes of the tables, see \<open>table_modes_separated\<close>), no audio entry (mode at
  least 90) stands before a video entry in the result, and of two entries of the same
  group the earlier one has the higher or equal mode.
\<close>

theorem sort_playlists_ranking:
  assumes sep: "\<forall>a\<in>set ps. \<forall>v\<in>set ps. mode a \<ge> 90 \<and> mode v < 90 \<longrightarrow> mode a - 90 < mode v"
    and ij: "i < j" "j < length (sort_playlists ps)"
  shows "mset (sort_playlists ps) = mset ps
       \<and> \<not> (mode (sort_playlists ps ! i) \<ge> 90 \<and> mode (sort_playlists ps ! j) < 90)
       \<and> ((mode (sort_playlists ps ! i) \<ge> 90 \<longleftrightarrow> mode (sort_playlists ps ! j) \<ge> 90)
          \<longrightarrow> mode (sort_playlists ps ! j) \<le> mode (sort_playlists ps ! i))"
proof -
  let ?s = "sort_playlists ps"
  have k: "key_map (?s ! j) \<le> key_map (?s ! i)"
    using ij by (rule sort_playlists_nth_key)
  have mem: "?s ! i \<in> set ps" "?s ! j \<in> set ps"
    using ij set_sort_playlists[of ps] nth_mem[of i ?s] nth_mem[of j ?s] by auto
  have 1: "\<not> (mode (?s ! i) \<ge> 90 \<and> mode (?s ! j) < 90)"
  proof
    assume a: "mode (?s ! i) \<ge> 90 \<and> mode (?s ! j) < 90"
    with sep mem have "mode (?s ! i) - 90 < mode (?s ! j)" by blast
    with a k show False by (simp add: key_map_def)
  qed
  have 2: "(mode (?s ! i) \<ge> 90 \<longleftrightarrow> mode (?s ! j) \<ge> 90) \<longrightarrow> mode (?s ! j) \<le> mode (?s ! i)"
    using k by (auto simp: key_map_def split: if_splits)
  show ?thesis using 1 2 by (simp add: mset_sort_playlists)
qed

theorem sort_playlists_ranking_witness:
  "mode (sort_playlists [\<lparr>url = ''B'', mode = 40\<rparr>, \<lparr>url = ''C'', mode = 90\<rparr>, \<lparr>url = ''A'', mode = 52\<rparr>] ! 1)
     \<le> mode (sort_playlists [\<lparr>url = ''B'', mode = 40\<rparr>, \<lparr>url = ''C'', mode = 90\<rparr>, \<lparr>url = ''A'', mode = 52\<rparr>] ! 0)
   \<and> sort_playlists [\<lparr>url = ''B'', mode = 40\<rparr>, \<lparr>url = ''C'', mode = 90\<rparr>, \<lparr>url = ''A'', mode = 52\<rparr>]
      = [\<lparr>url = ''A'', mode = 52\<rparr>, \<lparr>url = ''B'', mode = 40\<rparr>, \<lparr>url = ''C'', mode = 90\<rparr>]"
  using sort_playlists_ranking[of "[\<lparr>url = ''B'', mode = 40\<rparr>, \<lparr>url = ''C'', mode = 90\<rparr>, \<lparr>url = ''A'', mode = 52\<rparr>]" 0 1]
  by (simp add: sort_playlists_def key_map_def)

subsection \<open>Selection of the playlist\<close>

lemma find_mode_snoc:
  "find_mode (xs @ [x]) m = (if mode x = m then Some x else find_mode xs m)"
  by (simp add: find_mode_def)

lemma find_mode_None: "find_mode xs m = None \<longleftrightarrow> (\<forall>p\<in>set xs. mode p \<noteq> m)"
  by (induction xs rule: rev_induct) (auto simp: find_mode_snoc, simp add: find_mode_def)

lemma find_mode_Some: "find_mode xs m = Some p \<Longrightarrow> p \<in> set xs \<and> mode p = m"
  by (induction xs rule: rev_induct) (auto simp: find_mode_snoc find_mode_def split: if_splits)

lemma get_mode_table:
  assumes "map_of STREAM_QUALITY (quality ps) = Some q"
    and "map_of STREAM_LATENCY (latency ps) = Some l"
  shows "get_mode ps = Inr (q + l)"
  using assms by (simp add: get_mode_def dict_get_def)

lemma dict_search_quality:
  "(kq, q) \<in> set STREAM_QUALITY \<Longrightarrow> dict_search STREAM_QUALITY q = Inr kq"
  unfolding STREAM_QUALITY_def dict_search_def by auto

lemma dict_search_latency:
  "(kl, l) \<in> set STREAM_LATENCY \<Longrightarrow> dict_search STREAM_LATENCY l = Inr kl"
  unfolding STREAM_LATENCY_def dict_search_def by auto

lemma table_div_mod:
  assumes "(kq, q) \<in> set STREAM_QUALITY" and "(kl, l) \<in> set STREAM_LATENCY"
  shows "(q + l) mod 10 = l \<and> (q + l) div 10 * 10 = q"
proof -
  from assms(1) have "q mod 10 = 0" "0 \<le> q" by (auto simp: STREAM_QUALITY_def)
  moreover from assms(2) have "0 \<le> l" "l < 10" by (auto simp: STREAM_LATENCY_def)
  ultimately show ?thesis by presburger
qed

lemma format_mode_table:
  assumes "(kq, q) \<in> set STREAM_QUALITY" and "(kl, l) \<in> set STREAM_LATENCY"
  shows "format_mode (q + l) = Inr (kq, kl)"
  using table_div_mod[OF assms] dict_search_quality[OF assms(1)] dict_search_latency[OF assms(2)]
  by (simp add: format_mode_def)

text \<open>
  Claim C4, as stated, fails in its second half: when no entry has the requested mode,
  the fallback evaluates \<open>_format_mode\<close> of the top-ranked entry's mode for the
  warning, which raises \<open>ValueError\<close> for a mode outside the tables (60 is no
  quality of \<open>STREAM_QUALITY\<close>); and with an empty merged list the subscript
  \<open>sorted_playlists[0]\<close> raises \<open>IndexError\<close>.
\<close>

theorem get_hls_url_fallback_counterexample:
  "get_mode \<lparr>quality = ''3Mbps'', latency = ''mid''\<rparr> = Inr 52
   \<and> sort_playlists (merge_playlists [''playlists'' \<mapsto> [\<lparr>url = ''A'', mode = 60\<rparr>]])
       = [\<lparr>url = ''A'', mode = 60\<rparr>]
   \<and> get_hls_url \<lparr>quality = ''3Mbps'', latency = ''mid''\<rparr>
        [''playlists'' \<mapsto> [\<lparr>url = ''A'', mode = 60\<rparr>]] = Inl ValueError
   \<and> get_hls_url \<lparr>quality = ''3Mbps'', latency = ''mid''\<rparr> [''playlists'' \<mapsto> []] = Inl IndexError"
  by (simp add: get_hls_url_def get_mode_def dict_get_def STREAM_QUALITY_def STREAM_LATENCY_def
      merge_playlists_def sort_playlists_def get_playlist_or_best_def find_mode_def
      format_mode_def dict_search_def)


text \<open>
  Claim C4, amended: for every configuration whose quality and latency are keys of the
  tables, with target mode \<open>STREAM_QUALITY[quality] + STREAM_LATENCY[latency]\<close>: if the
  merged playlists contain an entry of the target mode, \<open>_get_hls_url\<close> returns the url
  of an entry of exactly that mode and logs nothing; if no entry has the target mode, the
  sorted merged list is not empty and the mode of its first entry is the sum of a value of
  \<open>STREAM_QUALITY\<close> and a value of \<open>STREAM_LATENCY\<close>, it returns the url of that
  first entry and logs the two warnings.
\<close>

theorem get_hls_url_mode_selection:
  assumes q: "map_of STREAM_QUALITY (quality ps) = Some q"
    and l: "map_of STREAM_LATENCY (latency ps) = Some l"
  shows "((\<exists>p\<in>set (merge_playlists info). mode p = q + l) \<longrightarrow>
            (\<exists>p\<in>set (merge_playlists info). mode p = q + l \<and> get_hls_url ps info = Inr (url p, [])))
       \<and> ((\<forall>p\<in>set (merge_playlists info). mode p \<noteq> q + l)
            \<and> sort_playlists (merge_playlists info) = best # rest
            \<and> (kq, q') \<in> set STREAM_QUALITY \<and> (kl, l') \<in> set STREAM_LATENCY
            \<and> mode best = q' + l' \<longrightarrow>
            get_hls_url ps info =
              Inr (url best,
                   [(Warn, [S ''Requested quality'', S (quality ps), S (latency ps), S ''is not available'']),
                    (Warn, [S ''falling back to next best quality'', S kq, S kl])]))"
proof (intro conjI impI)
  let ?srt = "sort_playlists (merge_playlists info)"
  have m: "get_mode ps = Inr (q + l)" using q l by (rule get_mode_table)
  {
    assume "\<exists>p\<in>set (merge_playlists info). mode p = q + l"
    then have "find_mode ?srt (q + l) \<noteq> None"
      by (simp add: find_mode_None set_sort_playlists)
    then obtain p where p: "find_mode ?srt (q + l) = Some p" by blast
    then have "p \<in> set (merge_playlists info)" "mode p = q + l"
      using find_mode_Some[OF p] by (simp_all add: set_sort_playlists)
    moreover have "get_hls_url ps info = Inr (url p, [])"
      using m p by (simp add: get_hls_url_def get_playlist_or_best_def)
    ultimately show "\<exists>p\<in>set (merge_playlists info). mode p = q + l \<and> get_hls_url ps info = Inr (url p, [])"
      by blast
  }
  {
    assume a: "(\<forall>p\<in>set (merge_playlists info). mode p \<noteq> q + l)
            \<and> ?srt = best # rest
            \<and> (kq, q') \<in> set STREAM_QUALITY \<and> (kl, l') \<in> set STREAM_LATENCY
            \<and> mode best = q' + l'"
    then have "\<forall>p\<in>set (merge_playlists info). mode p \<noteq> q + l" by blast
    then have "\<forall>p\<in>set ?srt. mode p \<noteq> q + l" unfolding set_sort_playlists .
    then have none: "find_mode ?srt (q + l) = None"
      by (simp only: find_mode_None)
    have f1: "format_mode (q + l) = Inr (quality ps, latency ps)"
      using q l by (intro format_mode_table map_of_SomeD)
    have f2: "format_mode (mode best) = Inr (kq, kl)"
      using a format_mode_table[of kq q' kl l'] by simp
    show "get_hls_url ps info =
              Inr (url best,
                   [(Warn, [S ''Requested quality'', S (quality ps), S (latency ps), S ''is not available'']),
                    (Warn, [S ''falling back to next best quality'', S kq, S kl])])"
      using m none a f1 f2 by (simp add: get_hls_url_def get_playlist_or_best_def)
  }
qed


theorem get_hls_url_mode_selection_witness:
  "get_hls_url \<lparr>quality = ''3Mbps'', latency = ''mid''\<rparr>
     [''playlists'' \<mapsto> [\<lparr>url = ''A'', mode = 52\<rparr>, \<lparr>url = ''B'', mode = 40\<rparr>]] = Inr (''A'', [])
   \<and> get_hls_url \<lparr>quality = ''3Mbps'', latency = ''low''\<rparr>
     [''playlists'' \<mapsto> [\<lparr>url = ''A'', mode = 52\<rparr>, \<lparr>url = ''B'', mode = 40\<rparr>]] =
       Inr (''A'', [(Warn, [S ''Requested quality'', S ''3Mbps'', S ''low'', S ''is not available'']),
                    (Warn, [S ''falling back to next best quality'', S ''3Mbps'', S ''mid''])])"
proof -
  let ?info = "[''playlists'' \<mapsto> [\<lparr>url = ''A'', mode = 52\<rparr>, \<lparr>url = ''B'', mode = 40\<rparr>]]"
  have mg: "merge_playlists ?info = [\<lparr>url = ''A'', mode = 52\<rparr>, \<lparr>url = ''B'', mode = 40\<rparr>]"
    by (simp add: merge_playlists_def)
  have srt: "sort_playlists (merge_playlists ?info) = \<lparr>url = ''A'', mode = 52\<rparr> # [\<lparr>url = ''B'', mode = 40\<rparr>]"
    by (simp add: mg sort_playlists_def key_map_def)
  have 1: "get_hls_url \<lparr>quality = ''3Mbps'', latency = ''mid''\<rparr> ?info = Inr (''A'', [])"
    using get_hls_url_mode_selection[of "\<lparr>quality = ''3Mbps'', latency = ''mid''\<rparr>" 50 2 ?info]
    by (auto simp: STREAM_QUALITY_def STREAM_LATENCY_def mg)
  have 2: "get_hls_url \<lparr>quality = ''3Mbps'', latency = ''low''\<rparr> ?info =
       Inr (''A'', [(Warn, [S ''Requested quality'', S ''3Mbps'', S ''low'', S ''is not available'']),
                    (Warn, [S ''falling back to next best quality'', S ''3Mbps'', S ''mid''])])"
    using get_hls_url_mode_selection[of "\<lparr>quality = ''3Mbps'', latency = ''low''\<rparr>" 50 0 ?info
        "\<lparr>url = ''A'', mode = 52\<rparr>" "[\<lparr>url = ''B'', mode = 40\<rparr>]" "''3Mbps''" 50 "''mid''" 2] srt
    by (simp add: STREAM_QUALITY_def STREAM_LATENCY_def mg)
  show ?thesis using 1 2 by simp
qed

subsection \<open>Retries of \<open>get_hls_information\<close>\<close>

lemma hls_loop_done:
  "msg \<noteq> None \<or> max_tries \<le> tries \<Longrightarrow> hls_loop env msg tries s = (Inr (msg, tries), s)"
  by (subst hls_loop.simps) auto

lemma hls_loop_fail_step:
  assumes "tries < max_tries" and "attempt_fails (env tries)"
  shows "\<exists>s1. hls_loop env None tries s = hls_loop env None (Suc tries) s1"
  using assms
  by (subst hls_loop.simps)
     (auto simp: attempt_fails_def send_message_and_wait_def split: wait_outcome.splits prod.splits)

lemma hls_loop_success_step:
  assumes "tries < max_tries" and "env tries = Responded args" and "''playlists'' \<in> dom args"
  shows "fst (hls_loop env None tries s) = Inr (Some args, Suc tries)"
  using assms
  by (subst hls_loop.simps)
     (auto simp: send_message_and_wait_def hls_loop_done split: prod.splits)

lemma hls_loop_first_success:
  assumes "k < max_tries" and "tries \<le> k"
    and "\<forall>j. tries \<le> j \<and> j < k \<longrightarrow> attempt_fails (env j)"
    and "env k = Responded args" and "''playlists'' \<in> dom args"
  shows "fst (hls_loop env None tries s) = Inr (Some args, Suc k)"
  using assms
proof (induction "k - tries" arbitrary: tries s)
  case 0
  then have "tries = k" by simp
  with 0 show ?case by (simp add: hls_loop_success_step)
next
  case (Suc n)
  then have lt: "tries < k" by simp
  with Suc.prems have "tries < max_tries" "attempt_fails (env tries)" by auto
  then obtain s1 where "hls_loop env None tries s = hls_loop env None (Suc tries) s1"
    using hls_loop_fail_step by blast
  moreover have "fst (hls_loop env None (Suc tries) s1) = Inr (Some args, Suc k)"
    using Suc.hyps(2) Suc.prems lt by (intro Suc.hyps(1)) auto
  ultimately show ?case by simp
qed

lemma hls_loop_all_fail:
  assumes "tries \<le> max_tries"
    and "\<forall>j. tries \<le> j \<and> j < max_tries \<longrightarrow> attempt_fails (env j)"
  shows "fst (hls_loop env None tries s) = Inr (None, max_tries)"
  using assms
proof (induction "max_tries - tries" arbitrary: tries s)
  case 0
  then show ?case by (simp add: hls_loop_done)
next
  case (Suc n)
  then have "tries < max_tries" "attempt_fails (env tries)" by auto
  then obtain s1 where "hls_loop env None tries s = hls_loop env None (Suc tries) s1"
    using hls_loop_fail_step by blast
  moreover have "fst (hls_loop env None (Suc tries) s1) = Inr (None, max_tries)"
    using Suc.hyps(2) Suc.prems by (intro Suc.hyps(1)) auto
  ultimately show ?case by simp
qed

lemma get_hls_information_first_success:
  assumes "k < max_tries" and "\<forall>j<k. attempt_fails (env j)"
    and "env k = Responded args" and "''playlists'' \<in> dom args"
  shows "fst (get_hls_information env s) =
           (if Suc k = max_tries then Inl EmptyPlaylistException else Inr args)"
proof -
  have "fst (hls_loop env None 0 s) = Inr (Some args, Suc k)"
    using assms by (intro hls_loop_first_success) auto
  then show ?thesis
    by (auto simp: get_hls_information_def split: prod.splits sum.splits)
qed

lemma get_hls_information_all_fail:
  assumes "\<forall>j<max_tries. attempt_fails (env j)"
  shows "fst (get_hls_information env s) = Inl EmptyPlaylistException"
proof -
  have "fst (hls_loop env None 0 s) = Inr (None, max_tries)"
    using assms by (intro hls_loop_all_fail) auto
  then show ?thesis
    by (auto simp: get_hls_information_def split: prod.splits sum.splits)
qed

lemma hls_loop_slept:
  assumes "tries \<le> max_tries"
    and "\<forall>j. tries \<le> j \<and> j < max_tries \<longrightarrow> attempt_fails (env j)"
  shows "slept (snd (hls_loop env None tries s)) = slept s @ map (\<lambda>j. 2 ^ j) [tries..<max_tries]"
  using assms
proof (induction "max_tries - tries" arbitrary: tries s)
  case 0
  then show ?case by (simp add: hls_loop_done)
next
  case (Suc n)
  then have lt: "tries < max_tries" and f: "attempt_fails (env tries)" by auto
  have "\<exists>s1. hls_loop env None tries s = hls_loop env None (Suc tries) s1 \<and> slept s1 = slept s @ [2 ^ tries]"
    using lt f
    by (subst hls_loop.simps)
       (auto simp: attempt_fails_def send_message_and_wait_def send_message_def Let_def sleep_def
          ws_logger_def write_dump_def split: wait_outcome.splits prod.splits option.splits)
  then obtain s1 where s1: "hls_loop env None tries s = hls_loop env None (Suc tries) s1"
      "slept s1 = slept s @ [2 ^ tries]" by blast
  have "slept (snd (hls_loop env None (Suc tries) s1)) = slept s1 @ map (\<lambda>j. 2 ^ j) [Suc tries..<max_tries]"
    using Suc.hyps(2) Suc.prems by (intro Suc.hyps(1)) auto
  then show ?case using s1 lt by (simp add: upt_rec[of tries])
qed

lemma get_hls_information_backoff:
  assumes "\<forall>j<max_tries. attempt_fails (env j)"
  shows "slept (snd (get_hls_information env (ws_init d))) = [1, 2, 4, 8, 16]"
proof -
  have "slept (snd (hls_loop env None 0 (ws_init d))) = map (\<lambda>j. 2 ^ j) [0..<max_tries]"
    using hls_loop_slept[where tries = 0 and env = env and s = "ws_init d"] assms by (simp add: ws_init_def)
  also have "\<dots> = [1, 2, 4, 8, 16]" by (simp add: max_tries_def upt_rec)
  finally show ?thesis
    by (auto simp: get_hls_information_def ws_logger_def split: prod.splits sum.splits option.splits)
qed


text \<open>
  Claim C2: the loop makes up to five attempts and sleeps \<open>2 ^ tries\<close> seconds after a
  failed one (\<open>get_hls_information_backoff\<close>); a response with a \<open>playlists\<close> key in
  one of the first four attempts is returned, and five failed attempts raise
  \<open>EmptyPlaylistException\<close> (\<open>get_hls_information_first_success\<close>,
  \<open>get_hls_information_all_fail\<close>). But the test after the loop is
  \<open>tries == max_tries\<close>, not \<open>msg is None\<close>: when the first four attempts time out
  and the fifth brings a response with a \<open>playlists\<close> key, the loop ends with that
  response and \<open>tries = 5\<close>, and the function raises \<open>EmptyPlaylistException\<close> instead
  of returning the arguments.
\<close>

theorem get_hls_information_fifth_attempt:
  "fst (get_hls_information
          (\<lambda>k. if k < 4 then Timed_out
                else Responded [''playlists'' \<mapsto> [\<lparr>url = ''A'', mode = 52\<rparr>]])
          (ws_init False)) = Inl EmptyPlaylistException"
  using get_hls_information_first_success[of 4
          "\<lambda>k. if k < 4 then Timed_out else Responded [''playlists'' \<mapsto> [\<lparr>url = ''A'', mode = 52\<rparr>]]"
          "[''playlists'' \<mapsto> [\<lparr>url = ''A'', mode = 52\<rparr>]]" "ws_init False"]
  by (simp add: max_tries_def attempt_fails_def)




subsection \<open>Message ids\<close>

lemma ids_ok_init: "ids_ok (ws_init d)"
  by (simp add: ids_ok_def ws_init_def)

lemma write_dump_fields [simp]:
  "msg_id (write_dump l s) = msg_id s" "sent (write_dump l s) = sent s"
  "last_heartbeat (write_dump l s) = last_heartbeat s"
  "heartbeat_times (write_dump l s) = heartbeat_times s"
  by (simp_all add: write_dump_def split: option.splits)

lemma ws_logger_fields [simp]:
  "msg_id (ws_logger lvl a s) = msg_id s" "sent (ws_logger lvl a s) = sent s"
  "last_heartbeat (ws_logger lvl a s) = last_heartbeat s"
  "heartbeat_times (ws_logger lvl a s) = heartbeat_times s"
  by (simp_all add: ws_logger_def)

lemma sleep_fields [simp]:
  "msg_id (sleep n s) = msg_id s" "sent (sleep n s) = sent s"
  "last_heartbeat (sleep n s) = last_heartbeat s"
  "heartbeat_times (sleep n s) = heartbeat_times s"
  by (simp_all add: sleep_def)

lemma send_message_fields:
  "msg_id (snd (send_message nm args s)) = msg_id s + 1"
  "sent (snd (send_message nm args s)) = sent s @ [\<lparr>name = nm, arguments = args, ident = msg_id s + 1\<rparr>]"
  "last_heartbeat (snd (send_message nm args s)) = last_heartbeat s"
  "heartbeat_times (snd (send_message nm args s)) = heartbeat_times s"
  "fst (send_message nm args s) = msg_id s + 1"
  by (simp_all add: send_message_def Let_def)

lemma ids_ok_send_message: "ids_ok s \<Longrightarrow> ids_ok (snd (send_message nm args s))"
  by (simp add: ids_ok_def send_message_fields)

lemma ids_ok_cong:
  "msg_id s' = msg_id s \<Longrightarrow> sent s' = sent s \<Longrightarrow> ids_ok s \<Longrightarrow> ids_ok s'"
  by (simp add: ids_ok_def)

lemma ids_ok_try_heartbeat: "ids_ok s \<Longrightarrow> ids_ok (try_heartbeat now now' s)"
proof -
  assume a: "ids_ok s"
  have "ids_ok (snd (send_message ''heartbeat'' Map.empty (ws_logger Debug [S ''heartbeat''] s)))"
    by (rule ids_ok_send_message) (rule ids_ok_cong[OF _ _ a], simp_all)
  then show ?thesis
    using a by (auto simp: try_heartbeat_def Let_def ids_ok_def)
qed

lemma handle_frame_fields:
  "handle_frame f s = Inr s' \<Longrightarrow>
     msg_id s' = msg_id s \<and> sent s' = sent s \<and> last_heartbeat s' = last_heartbeat s
     \<and> heartbeat_times s' = heartbeat_times s"
  by (cases f) (auto split: if_splits)

lemma ids_ok_main_loop: "ids_ok s \<Longrightarrow> ids_ok (snd (main_loop rs s))"
proof (induction rs s rule: main_loop.induct)
  case (1 s)
  then show ?case by simp
next
  case (2 rest s)
  then show ?case by simp
next
  case (3 f now now' rest s)
  show ?case
  proof (cases "handle_frame f (write_dump (Inbound f) s)")
    case (Inl e)
    then show ?thesis using "3.prems" by (auto simp: Let_def intro: ids_ok_cong[of _ s])
  next
    case (Inr s2)
    have "ids_ok s2"
      using handle_frame_fields[OF Inr] "3.prems" by (auto intro: ids_ok_cong[of _ s])
    then have "ids_ok (try_heartbeat now now' s2)" by (rule ids_ok_try_heartbeat)
    then show ?thesis using "3.IH"[OF refl Inr] Inr by (simp add: Let_def)
  qed
qed

lemma ids_ok_send_message_and_wait:
  "ids_ok s \<Longrightarrow> ids_ok (snd (send_message_and_wait nm outcome s))"
  using ids_ok_send_message[of s nm Map.empty]
  by (auto simp: send_message_and_wait_def ids_ok_def split: prod.splits wait_outcome.splits)

lemma ids_ok_hls_loop: "ids_ok s \<Longrightarrow> ids_ok (snd (hls_loop env msg tries s))"
proof (induction env msg tries s rule: hls_loop.induct)
  case (1 env msg tries s)
  show ?case
  proof (cases "msg = None \<and> tries < max_tries")
    case False
    then show ?thesis using "1.prems" by (subst hls_loop.simps) auto
  next
    case True
    obtain r s1 where sw: "send_message_and_wait ''get_hls_information'' (env tries) s = (r, s1)"
      by (cases "send_message_and_wait ''get_hls_information'' (env tries) s")
    have ok1: "ids_ok s1"
      using ids_ok_send_message_and_wait[OF "1.prems", of "''get_hls_information''" "env tries"] sw
      by simp
    have okw: "\<And>a n. ids_ok (sleep n (ws_logger Warn a s1))"
      by (rule ids_ok_cong[OF _ _ ok1]) simp_all
    show ?thesis
    proof (cases r)
      case (Inl e)
      then show ?thesis using True sw ok1 by (subst hls_loop.simps) simp
    next
      case (Inr m)
      show ?thesis
      proof (cases m)
        case None
        then show ?thesis
          using True sw Inr "1.IH"(1)[OF True sw[symmetric] _ _ okw] 
          by (subst hls_loop.simps) simp
      next
        case (Some args)
        then show ?thesis
          using True sw Inr "1.IH"(2)[OF True sw[symmetric] _ _ _ okw]
            "1.IH"(3)[OF True sw[symmetric] _ _ _ ok1]
          by (subst hls_loop.simps) simp
      qed
    qed
  qed
qed

lemma ids_ok_get_hls_information: "ids_ok s \<Longrightarrow> ids_ok (snd (get_hls_information env s))"
proof -
  assume a: "ids_ok s"
  obtain r s1 where h: "hls_loop env None 0 s = (r, s1)" by (cases "hls_loop env None 0 s")
  have ok1: "ids_ok s1" using ids_ok_hls_loop[OF a, of env None 0] h by simp
  have "\<And>a. ids_ok (ws_logger Error a s1)" by (rule ids_ok_cong[OF _ _ ok1]) simp_all
  then show ?thesis
    using h ok1 by (auto simp: get_hls_information_def split: sum.splits option.splits)
qed

lemma ids_ok_ws_op_step: "ids_ok s \<Longrightarrow> ids_ok (ws_op_step op s)"
  by (cases op)
     (simp_all add: ids_ok_main_loop ids_ok_send_message ids_ok_send_message_and_wait
        ids_ok_get_hls_information)

lemma ids_ok_ws_run: "ids_ok s \<Longrightarrow> ids_ok (ws_run ops s)"
  unfolding ws_run_def by (induction ops arbitrary: s) (simp_all add: ids_ok_ws_op_step)

lemma sorted_wrt_less_int_upt: "sorted_wrt (<) (map int [m..<n])"
  by (simp add: sorted_wrt_map sorted_wrt_iff_nth_less)

text \<open>
  Claim C9: over any session of one connection (receive-loop iterations with their
  heartbeats, requests and whole calls of \<open>get_hls_information\<close>, in any order), the
  messages handed to \<open>send_json\<close> carry the ids 1, 2, 3, ... in the order they were
  sent: the ids strictly increase and the first is 1.
\<close>

theorem message_ids_increase_from_one:
  "map ident (sent (ws_run ops (ws_init d))) = map int [1..<Suc (length (sent (ws_run ops (ws_init d))))]
   \<and> sorted_wrt (<) (map ident (sent (ws_run ops (ws_init d))))
   \<and> sent (ws_init d) = []"
proof -
  have ok: "ids_ok (ws_run ops (ws_init d))"
    by (rule ids_ok_ws_run) (rule ids_ok_init)
  then have eq: "map ident (sent (ws_run ops (ws_init d))) =
      map int [1..<Suc (length (sent (ws_run ops (ws_init d))))]"
    by (simp add: ids_ok_def)
  moreover have "sorted_wrt (<) (map ident (sent (ws_run ops (ws_init d))))"
    unfolding eq by (rule sorted_wrt_less_int_upt)
  ultimately show ?thesis by (simp add: ws_init_def)
qed

subsection \<open>Heartbeat cadence\<close>

lemma spaced_snoc:
  "spaced (hs @ [h]) \<longleftrightarrow> spaced hs \<and> (hs = [] \<or> heartbeat_interval \<le> fst h - snd (last hs))"
  by (induction hs rule: spaced.induct) auto

lemma spaced_nth:
  "spaced hs \<Longrightarrow> Suc i < length hs \<Longrightarrow> heartbeat_interval \<le> fst (hs ! Suc i) - snd (hs ! i)"
proof (induction hs arbitrary: i rule: spaced.induct)
  case (1 h1 h2 hs)
  then show ?case by (cases i) auto
qed simp_all

lemma hb_ok_cong:
  "last_heartbeat s' = last_heartbeat s \<Longrightarrow> heartbeat_times s' = heartbeat_times s \<Longrightarrow>
   hb_ok s \<Longrightarrow> hb_ok s'"
  by (simp add: hb_ok_def)

lemma hb_ok_init: "hb_ok (ws_init d)"
  by (simp add: hb_ok_def ws_init_def)

lemma try_heartbeat_fields:
  "sent (try_heartbeat now now' s) =
     (if heartbeat_interval \<le> now - last_heartbeat s
      then sent s @ [\<lparr>name = ''heartbeat'', arguments = Map.empty, ident = msg_id s + 1\<rparr>]
      else sent s)"
  "heartbeat_times (try_heartbeat now now' s) =
     (if heartbeat_interval \<le> now - last_heartbeat s
      then heartbeat_times s @ [(now, now')] else heartbeat_times s)"
  "last_heartbeat (try_heartbeat now now' s) =
     (if heartbeat_interval \<le> now - last_heartbeat s then now' else last_heartbeat s)"
  by (auto simp: try_heartbeat_def Let_def send_message_fields)

lemma hb_ok_try_heartbeat: "hb_ok s \<Longrightarrow> hb_ok (try_heartbeat now now' s)"
  by (auto simp: hb_ok_def try_heartbeat_fields spaced_snoc)

lemma hb_ok_main_loop: "hb_ok s \<Longrightarrow> hb_ok (snd (main_loop rs s))"
proof (induction rs s rule: main_loop.induct)
  case (3 f now now' rest s)
  show ?case
  proof (cases "handle_frame f (write_dump (Inbound f) s)")
    case (Inl e)
    then show ?thesis using "3.prems" by (auto simp: Let_def intro: hb_ok_cong[of _ s])
  next
    case (Inr s2)
    have "hb_ok s2"
      using handle_frame_fields[OF Inr] "3.prems" by (auto intro: hb_ok_cong[of _ s])
    then have "hb_ok (try_heartbeat now now' s2)" by (rule hb_ok_try_heartbeat)
    then show ?thesis using "3.IH"[OF refl Inr] Inr by (simp add: Let_def)
  qed
qed simp_all

lemma send_message_and_wait_hb:
  "last_heartbeat (snd (send_message_and_wait nm outcome s)) = last_heartbeat s"
  "heartbeat_times (snd (send_message_and_wait nm outcome s)) = heartbeat_times s"
  using send_message_fields(3,4)[of nm Map.empty s]
  by (auto simp: send_message_and_wait_def split: prod.splits wait_outcome.splits)

lemma hls_loop_hb:
  "last_heartbeat (snd (hls_loop env msg tries s)) = last_heartbeat s
   \<and> heartbeat_times (snd (hls_loop env msg tries s)) = heartbeat_times s"
proof (induction env msg tries s rule: hls_loop.induct)
  case (1 env msg tries s)
  show ?case
  proof (cases "msg = None \<and> tries < max_tries")
    case False
    then show ?thesis by (subst (1 2) hls_loop.simps) auto
  next
    case True
    obtain r s1 where sw: "send_message_and_wait ''get_hls_information'' (env tries) s = (r, s1)"
      by (cases "send_message_and_wait ''get_hls_information'' (env tries) s")
    have s1: "last_heartbeat s1 = last_heartbeat s" "heartbeat_times s1 = heartbeat_times s"
      using send_message_and_wait_hb[of "''get_hls_information''" "env tries" s] sw by simp_all
    show ?thesis
    proof (cases r)
      case (Inl e)
      then show ?thesis using True sw s1 by (subst (1 2) hls_loop.simps) simp
    next
      case (Inr m)
      show ?thesis
      proof (cases m)
        case None
        then show ?thesis
          using True sw Inr s1 "1.IH"(1)[OF True sw[symmetric]]
          by (subst (1 2) hls_loop.simps) simp
      next
        case (Some args)
        then show ?thesis
          using True sw Inr s1 "1.IH"(2)[OF True sw[symmetric]] "1.IH"(3)[OF True sw[symmetric]]
          by (subst (1 2) hls_loop.simps) simp
      qed
    qed
  qed
qed

lemma get_hls_information_hb:
  "last_heartbeat (snd (get_hls_information env s)) = last_heartbeat s
   \<and> heartbeat_times (snd (get_hls_information env s)) = heartbeat_times s"
  using hls_loop_hb[of env None 0 s]
  by (auto simp: get_hls_information_def split: prod.splits sum.splits option.splits)

lemma hb_ok_ws_op_step: "hb_ok s \<Longrightarrow> hb_ok (ws_op_step op s)"
proof (cases op)
  case (Op_main_loop rs)
  then show "hb_ok s \<Longrightarrow> ?thesis" by (simp add: hb_ok_main_loop)
next
  case (Op_send_message nm)
  then show "hb_ok s \<Longrightarrow> ?thesis"
    by (auto intro: hb_ok_cong[of _ s] simp: send_message_fields)
next
  case (Op_send_message_and_wait nm outcome)
  then show "hb_ok s \<Longrightarrow> ?thesis"
    by (auto intro: hb_ok_cong[of _ s] simp: send_message_and_wait_hb)
next
  case (Op_get_hls_information env)
  then show "hb_ok s \<Longrightarrow> ?thesis"
    by (auto intro: hb_ok_cong[of _ s] simp: get_hls_information_hb)
qed

lemma hb_ok_ws_run: "hb_ok s \<Longrightarrow> hb_ok (ws_run ops s)"
  unfolding ws_run_def by (induction ops arbitrary: s) (simp_all add: hb_ok_ws_op_step)

text \<open>
  Claim C8: when the handling of a received frame completes (it does not raise), the
  loop sends a heartbeat, with the next message id, if and only if the clock read by
  \<open>_try_heartbeat\<close> is at least \<open>heartbeat_interval\<close> past \<open>_last_heartbeat\<close>, the
  reading stored after the previous heartbeat (0 before the first). Consequently, in every
  session, each heartbeat's check reads the clock at least \<open>heartbeat_interval\<close> after
  the reading stored by the heartbeat before it.
\<close>

theorem heartbeat_cadence:
  "(\<forall>s2. handle_frame f (write_dump (Inbound f) s) = Inr s2 \<longrightarrow>
      sent (snd (main_loop [Recv f now now'] s)) =
        (if heartbeat_interval \<le> now - last_heartbeat s
         then sent s @ [\<lparr>name = ''heartbeat'', arguments = Map.empty, ident = msg_id s + 1\<rparr>]
         else sent s))
   \<and> (\<forall>i. Suc i < length (heartbeat_times (ws_run ops (ws_init d))) \<longrightarrow>
        heartbeat_interval \<le> fst (heartbeat_times (ws_run ops (ws_init d)) ! Suc i)
                               - snd (heartbeat_times (ws_run ops (ws_init d)) ! i))"
proof (intro conjI allI impI)
  fix s2 assume h: "handle_frame f (write_dump (Inbound f) s) = Inr s2"
  from handle_frame_fields[OF h]
  show "sent (snd (main_loop [Recv f now now'] s)) =
        (if heartbeat_interval \<le> now - last_heartbeat s
         then sent s @ [\<lparr>name = ''heartbeat'', arguments = Map.empty, ident = msg_id s + 1\<rparr>]
         else sent s)"
    using h by (simp add: Let_def try_heartbeat_fields)
next
  fix i assume "Suc i < length (heartbeat_times (ws_run ops (ws_init d)))"
  moreover have "hb_ok (ws_run ops (ws_init d))" by (rule hb_ok_ws_run) (rule hb_ok_init)
  ultimately show "heartbeat_interval \<le> fst (heartbeat_times (ws_run ops (ws_init d)) ! Suc i)
                               - snd (heartbeat_times (ws_run ops (ws_init d)) ! i)"
    by (simp add: hb_ok_def spaced_nth)
qed


theorem heartbeat_cadence_witness:
  "sent (snd (main_loop [Recv Connect_complete 100 (201/2)] (ws_init False)))
     = [\<lparr>name = ''heartbeat'', arguments = Map.empty, ident = 1\<rparr>]
   \<and> heartbeat_times (ws_run [Op_main_loop [Recv Connect_complete 100 (201/2),
                                            Recv (Comment []) 120 120,
                                            Recv (Other_frame ''x'') 131 (656/5)]] (ws_init False))
     = [(100, 201/2), (131, 656/5)]
   \<and> heartbeat_interval \<le>
       fst (heartbeat_times (ws_run [Op_main_loop [Recv Connect_complete 100 (201/2),
                                            Recv (Comment []) 120 120,
                                            Recv (Other_frame ''x'') 131 (656/5)]] (ws_init False)) ! Suc 0)
       - snd (heartbeat_times (ws_run [Op_main_loop [Recv Connect_complete 100 (201/2),
                                            Recv (Comment []) 120 120,
                                            Recv (Other_frame ''x'') 131 (656/5)]] (ws_init False)) ! 0)"
proof -
  let ?ops = "[Op_main_loop [Recv Connect_complete 100 (201/2), Recv (Comment []) 120 120,
                             Recv (Other_frame ''x'') 131 (656/5)]]"
  have ht: "heartbeat_times (ws_run ?ops (ws_init False)) = [(100, 201/2), (131, 656/5)]"
    by (simp add: ws_run_def ws_init_def try_heartbeat_def send_message_def write_dump_def
        ws_logger_def heartbeat_interval_def Let_def)
  have hf: "handle_frame Connect_complete (write_dump (Inbound Connect_complete) (ws_init False))
              = Inr ((ws_init False)\<lparr>is_ready := True\<rparr>)"
    by (simp add: write_dump_def ws_init_def)
  note c = heartbeat_cadence[of Connect_complete "ws_init False" 100 "201/2" ?ops False]
  from c hf have "sent (snd (main_loop [Recv Connect_complete 100 (201/2)] (ws_init False)))
     = [\<lparr>name = ''heartbeat'', arguments = Map.empty, ident = 1\<rparr>]"
    by (simp add: ws_init_def heartbeat_interval_def)
  moreover from c have "Suc 0 < length (heartbeat_times (ws_run ?ops (ws_init False))) \<longrightarrow>
        heartbeat_interval \<le> fst (heartbeat_times (ws_run ?ops (ws_init False)) ! Suc 0)
                               - snd (heartbeat_times (ws_run ?ops (ws_init False)) ! 0)"
    by blast
  then have "heartbeat_interval \<le> fst (heartbeat_times (ws_run ?ops (ws_init False)) ! Suc 0)
                               - snd (heartbeat_times (ws_run ?ops (ws_init False)) ! 0)"
    by (simp add: ht)
  ultimately show ?thesis using ht by simp
qed

subsection \<open>The playlist of fragment URLs\<close>

lemma py_split_not_Nil [simp]: "py_split sep s \<noteq> []"
  by (induction s) (auto split: list.splits)

lemma py_join_Cons: "ls \<noteq> [] \<Longrightarrow> py_join sep (l # ls) = l @ sep # py_join sep ls"
  by (cases ls) auto

lemma py_join_split: "py_join sep (py_split sep s) = s"
proof (induction s)
  case Nil
  then show ?case by simp
next
  case (Cons c cs)
  show ?case
  proof (cases "c = sep")
    case True
    then show ?thesis using Cons by (simp add: py_join_Cons)
  next
    case False
    obtain l ls where sp: "py_split sep cs = l # ls" by (cases "py_split sep cs") auto
    then show ?thesis using Cons False by (cases ls) auto
  qed
qed

lemma py_split_no_sep: "l \<in> set (py_split sep s) \<Longrightarrow> sep \<notin> set l"
  by (induction s arbitrary: l) (auto split: if_splits list.splits)

lemma py_split_no_sep_line: "sep \<notin> set l \<Longrightarrow> py_split sep (l @ sep # s) = l # py_split sep s"
  by (induction l) (auto split: list.splits)

lemma py_split_single: "sep \<notin> set l \<Longrightarrow> py_split sep l = [l]"
  by (induction l) (auto split: list.splits)

lemma py_split_join:
  "ls \<noteq> [] \<Longrightarrow> \<forall>l\<in>set ls. sep \<notin> set l \<Longrightarrow> py_split sep (py_join sep ls) = ls"
proof (induction ls rule: py_join.induct)
  case (3 sep l v va)
  then show ?case by (simp add: py_split_no_sep_line)
qed (simp_all add: py_split_single)

lemma py_strip_spec:
  "\<exists>a b. line = a @ py_strip line @ b \<and> (\<forall>c\<in>set a. py_isspace c) \<and> (\<forall>c\<in>set b. py_isspace c)
     \<and> (py_strip line = [] \<or> (\<not> py_isspace (hd (py_strip line)) \<and> \<not> py_isspace (last (py_strip line))))"
proof -
  let ?a = "takeWhile py_isspace line"
  let ?m = "dropWhile py_isspace line"
  let ?b = "rev (takeWhile py_isspace (rev ?m))"
  have 1: "line = ?a @ ?m" by simp
  have 2: "?m = py_strip line @ ?b"
    unfolding py_strip_def
    by (metis rev_append rev_rev_ident takeWhile_dropWhile_id)
  have 3: "\<forall>c\<in>set ?a. py_isspace c" by (auto dest: set_takeWhileD)
  have 4: "\<forall>c\<in>set ?b. py_isspace c" by (auto dest: set_takeWhileD)
  have 5: "py_strip line = [] \<or> \<not> py_isspace (last (py_strip line))"
  proof (cases "dropWhile py_isspace (rev ?m) = []")
    case True
    then show ?thesis by (simp add: py_strip_def)
  next
    case False
    then have "\<not> py_isspace (hd (dropWhile py_isspace (rev ?m)))" by (rule hd_dropWhile)
    then show ?thesis using False by (simp add: py_strip_def last_rev)
  qed
  have 6: "py_strip line = [] \<or> \<not> py_isspace (hd (py_strip line))"
  proof (cases "py_strip line = []")
    case False
    then have "?m \<noteq> []" by (subst 2) simp
    then have "\<not> py_isspace (hd ?m)" by (simp add: hd_dropWhile)
    moreover have "hd ?m = hd (py_strip line)" using 2 False by (metis hd_append2)
    ultimately show ?thesis by simp
  qed simp
  from 1 2 have "line = ?a @ py_strip line @ ?b" by simp
  with 3 4 5 6 show ?thesis by blast
qed

lemma comprehension_map_filter: "[f x. x \<leftarrow> xs, P x] = map f (filter P xs)"
  by (induction xs) auto

lemma keep_line_eq: "keep_line = (\<lambda>line. \<not> (line = [] \<or> take 1 line = ''#''))"
  by (rule ext) (auto simp: keep_line_def split: list.splits)

text \<open>
  Claim C6: \<open>_get_fragment_urls\<close> raises \<open>StreamFinished\<close> exactly when the GET
  returns a response of status 403; for a response of any other status whose body is
  read, it returns the lines of the body (the body split at every newline, see
  \<open>py_join_split\<close> and \<open>py_split_join\<close>) that are neither empty nor begin with
  \<open>#\<close>, each stripped of surrounding whitespace (\<open>py_strip_spec\<close>), in their
  original order.
\<close>

theorem get_fragment_urls_spec:
  "(get_fragment_urls r = Inl StreamFinished \<longleftrightarrow> (\<exists>body. r = Http_response 403 body))
   \<and> (status \<noteq> 403 \<longrightarrow>
        get_fragment_urls (Http_response status (Inr text)) =
          Inr (map py_strip
                 (filter (\<lambda>line. \<not> (line = [] \<or> take 1 line = ''#''))
                    (py_split CHR ''\<newline>'' text))))"
proof
  show "get_fragment_urls r = Inl StreamFinished \<longleftrightarrow> (\<exists>body. r = Http_response 403 body)"
    by (auto simp: get_fragment_urls_def split: http.splits sum.splits)
  show "status \<noteq> 403 \<longrightarrow>
        get_fragment_urls (Http_response status (Inr text)) =
          Inr (map py_strip
                 (filter (\<lambda>line. \<not> (line = [] \<or> take 1 line = ''#''))
                    (py_split CHR ''\<newline>'' text)))"
    by (simp add: get_fragment_urls_def comprehension_map_filter keep_line_eq)
qed

theorem get_fragment_urls_spec_witness:
  "get_fragment_urls
     (Http_response 200
        (Inr ''#EXTM3U\<newline>#EXTINF:2,\<newline>https://a/1.ts\<newline>\<newline>  https://a/2.ts \<newline>''))
     = Inr [''https://a/1.ts'', ''https://a/2.ts'']"
  using get_fragment_urls_spec[of "Get_failed []" 200
      "''#EXTM3U\<newline>#EXTINF:2,\<newline>https://a/1.ts\<newline>\<newline>  https://a/2.ts \<newline>''"]
  by (simp add: py_strip_def py_isspace_def)


subsection \<open>The fragment pipeline\<close>

lemma mset_pq_put [simp]: "mset (pq_put x q) = add_mset x (mset q)"
  by (simp add: pq_put_def)

lemma set_pq_put [simp]: "set (pq_put x q) = insert x (set q)"
  by (simp add: pq_put_def set_insort_key)

lemma opt_mset_simps [simp]: "opt_mset None = {#}" "opt_mset (Some e) = {#e#}"
  by (simp_all add: opt_mset_def)

lemma held_Nil [simp]: "held [] = []"
  by (simp add: held_def)

lemma held_Cons [simp]: "held (w # ws) = (case w of None \<Rightarrow> [] | Some e \<Rightarrow> [e]) @ held ws"
  by (simp add: held_def)

lemma held_replicate_None [simp]: "held (replicate n None) = []"
  by (induction n) simp_all

lemma mset_held_update:
  "w < length ws \<Longrightarrow> mset (held (ws[w := x])) + opt_mset (ws ! w) = mset (held ws) + opt_mset x"
proof (induction ws arbitrary: w)
  case Nil
  then show ?case by simp
next
  case (Cons a ws)
  show ?case
  proof (cases w)
    case 0
    then show ?thesis by (cases a; cases x) simp_all
  next
    case (Suc v)
    with Cons.prems have "v < length ws" by simp
    from Cons.IH[OF this] Suc show ?thesis by (cases a) simp_all
  qed
qed

lemma mset_held_take:
  "w < length ws \<Longrightarrow> ws ! w = None \<Longrightarrow> mset (held (ws[w := Some e])) = add_mset e (mset (held ws))"
  using mset_held_update[of w ws "Some e"] by simp

lemma mset_held_release:
  "w < length ws \<Longrightarrow> ws ! w = Some e \<Longrightarrow> add_mset e (mset (held (ws[w := None]))) = mset (held ws)"
  using mset_held_update[of w ws None] by simp

lemma set_held: "e \<in> set (held ws) \<longleftrightarrow> Some e \<in> set ws"
  by (induction ws) (auto split: option.splits)

lemma upto_snoc: "0 \<le> n \<Longrightarrow> [0..n] = [0..n - 1] @ [n]"
  by (simp add: upto_rec2)

lemma seqs_poll [simp]: "seqs (poll r s) = seqs s"
  by (simp add: poll_def seqs_def hls_logger_def Let_def split: sum.splits)

lemma seqs_poller_timeout [simp]: "seqs (poller_timeout s) = seqs s"
  by (simp add: poller_timeout_def seqs_def hls_logger_def)

lemma seqs_worker_get [simp]: "seqs (worker_get w s) = seqs s"
  by (auto simp: worker_get_def seqs_def hls_logger_def mset_held_take
      split: option.splits list.splits prod.splits)

lemma seqs_consumer_read [simp]: "seqs (consumer_read s) = seqs s"
  by (auto simp: consumer_read_def seqs_def split: list.splits prod.splits)

lemma seqs_worker_response:
  assumes "w < length (workers s)" and "workers s ! w = Some e"
  shows "seqs (worker_response w e r s) \<subseteq># seqs s"
proof -
  obtain i u t where e: "e = (i, u, t)" by (cases e)
  have rel: "add_mset (i, u, t) (mset (held ((workers s)[w := None]))) = mset (held (workers s))"
    using mset_held_release[OF assms] e by simp
  have rel': "image_mset fst (mset (held (workers s))) =
               add_mset i (image_mset fst (mset (held ((workers s)[w := None]))))"
    using arg_cong[OF rel, of "image_mset fst"] by simp
  show ?thesis
    unfolding e
    by (auto simp: worker_response_def worker_idle_def seqs_def hls_logger_def rel'
        split: http.splits sum.splits)
qed

lemma seqs_worker_resp: "seqs (worker_resp w r s) \<subseteq># seqs s"
  by (auto simp: worker_resp_def seqs_worker_response split: option.splits)

lemma pipeline_inv_init: "pipeline_inv (hls_init n)"
  by (simp add: pipeline_inv_def hls_init_def seqs_def)

lemma poll_fields [simp]:
  "index (poll r s) = index s" "frag_idx (poll r s) = frag_idx s"
  "poller_puts (poll r s) = poller_puts s" "yielded (poll r s) = yielded s"
  "frag_urls (poll r s) = frag_urls s" "frag_data (poll r s) = frag_data s"
  "workers (poll r s) = workers s"
  by (simp_all add: poll_def hls_logger_def Let_def split: sum.splits)

lemma poller_timeout_fields [simp]:
  "index (poller_timeout s) = index s" "frag_idx (poller_timeout s) = frag_idx s"
  "poller_puts (poller_timeout s) = poller_puts s" "yielded (poller_timeout s) = yielded s"
  "frag_urls (poller_timeout s) = frag_urls s" "frag_data (poller_timeout s) = frag_data s"
  "workers (poller_timeout s) = workers s"
  by (simp_all add: poller_timeout_def hls_logger_def)

lemma worker_get_fields [simp]:
  "index (worker_get w s) = index s" "frag_idx (worker_get w s) = frag_idx s"
  "poller_puts (worker_get w s) = poller_puts s" "yielded (worker_get w s) = yielded s"
  "frag_data (worker_get w s) = frag_data s"
  by (simp_all add: worker_get_def hls_logger_def split: option.splits list.splits prod.splits)

lemma worker_resp_fields [simp]:
  "index (worker_resp w r s) = index s" "frag_idx (worker_resp w r s) = frag_idx s"
  "poller_puts (worker_resp w r s) = poller_puts s" "yielded (worker_resp w r s) = yielded s"
  by (simp_all add: worker_resp_def worker_response_def worker_idle_def hls_logger_def
      split: option.splits http.splits sum.splits prod.splits)

lemma consumer_read_fields [simp]:
  "frag_idx (consumer_read s) = frag_idx s" "poller_puts (consumer_read s) = poller_puts s"
  "frag_urls (consumer_read s) = frag_urls s" "workers (consumer_read s) = workers s"
  by (simp_all add: consumer_read_def split: list.splits prod.splits)

lemma poller_put_fields [simp]:
  "index (poller_put s) = index s" "yielded (poller_put s) = yielded s"
  "frag_data (poller_put s) = frag_data s" "workers (poller_put s) = workers s"
  by (simp_all add: poller_put_def split: list.splits)

lemma pipeline_inv_poller_put: "pipeline_inv s \<Longrightarrow> pipeline_inv (poller_put s)"
proof -
  assume inv: "pipeline_inv s"
  then have f: "0 \<le> frag_idx s" by (simp add: pipeline_inv_def)
  show ?thesis
  proof (cases "poller_done s \<or> pending s = [] \<or> pq_full (frag_urls s)")
    case True
    then show ?thesis using inv by (auto simp: poller_put_def split: list.splits)
  next
    case False
    then obtain frag rest where p: "pending s = frag # rest" by (cases "pending s") auto
    have "seqs (poller_put s) = add_mset (frag_idx s) (seqs s)"
      using False p by (simp add: poller_put_def seqs_def)
    moreover have "add_mset (frag_idx s) (seqs s) \<subseteq># mset [0..frag_idx s]"
      using inv f by (simp add: pipeline_inv_def upto_snoc[of "frag_idx s"])
    ultimately show ?thesis
      using inv False p f by (simp add: pipeline_inv_def poller_put_def upto_snoc[of "frag_idx s"])
  qed
qed

lemma pipeline_inv_consumer_read: "pipeline_inv s \<Longrightarrow> pipeline_inv (consumer_read s)"
proof -
  assume inv: "pipeline_inv s"
  show ?thesis
  proof (cases "frag_data s")
    case Nil
    then show ?thesis using inv by (simp add: consumer_read_def)
  next
    case (Cons a rest)
    obtain p frag where a: "a = (p, frag)" by (cases a)
    show ?thesis
    proof (cases "p = index s")
      case False
      then have "index (consumer_read s) = index s" "yielded (consumer_read s) = yielded s"
        using Cons a by (simp_all add: consumer_read_def)
      then show ?thesis using inv by (simp add: pipeline_inv_def)
    next
      case True
      have "index s \<in># seqs s" using Cons a True by (simp add: seqs_def)
      then have "index s \<in># mset [0..frag_idx s - 1]"
        using inv by (meson mset_subset_eqD pipeline_inv_def)
      then have lt: "index s < frag_idx s" by simp
      have "index (consumer_read s) = index s + 1"
          "yielded (consumer_read s) = yielded s @ [(index s, frag)]"
        using Cons a True by (simp_all add: consumer_read_def)
      then show ?thesis using inv lt by (simp add: pipeline_inv_def upto_snoc[of "index s"])
    qed
  qed
qed

lemma pipeline_inv_step: "pipeline_inv s \<Longrightarrow> pipeline_inv (step a s)"
proof (cases a)
  case (Poll r)
  then show "pipeline_inv s \<Longrightarrow> ?thesis" by (simp add: pipeline_inv_def)
next
  case Poller_put
  then show "pipeline_inv s \<Longrightarrow> ?thesis" by (simp add: pipeline_inv_poller_put)
next
  case Poller_timeout
  then show "pipeline_inv s \<Longrightarrow> ?thesis" by (simp add: pipeline_inv_def)
next
  case (Worker_get w)
  then show "pipeline_inv s \<Longrightarrow> ?thesis" by (simp add: pipeline_inv_def)
next
  case (Worker_resp w r)
  then show "pipeline_inv s \<Longrightarrow> ?thesis"
    using seqs_worker_resp[of w r s] by (auto simp: pipeline_inv_def intro: subset_mset.order_trans)
next
  case Consumer_read
  then show "pipeline_inv s \<Longrightarrow> ?thesis" by (simp add: pipeline_inv_consumer_read)
qed

lemma exec_Nil: "exec [] s = s"
  by (simp add: exec_def)

lemma exec_Cons: "exec (a # acts) s = exec acts (step a s)"
  by (simp add: exec_def)

lemma exec_append: "exec (xs @ ys) s = exec ys (exec xs s)"
  by (simp add: exec_def)

lemma pipeline_inv_exec: "pipeline_inv s \<Longrightarrow> pipeline_inv (exec acts s)"
  by (induction acts arbitrary: s) (simp_all add: pipeline_inv_step exec_Nil exec_Cons)

text \<open>
  Both queues stay sorted, so the head that \<open>get\<close> takes is the least entry.
\<close>

lemma sorted_tl': "sorted xs \<Longrightarrow> sorted (tl xs)"
  by (cases xs) simp_all

lemma queues_sorted_step:
  assumes "sorted (frag_urls s) \<and> sorted (frag_data s)"
  shows "sorted (frag_urls (step a s)) \<and> sorted (frag_data (step a s))"
proof (cases a)
  case (Poll r)
  then show ?thesis using assms by simp
next
  case Poller_put
  then show ?thesis
    using assms by (auto simp: poller_put_def pq_put_def sorted_insort split: list.splits)
next
  case Poller_timeout
  then show ?thesis using assms by simp
next
  case (Worker_get w)
  then show ?thesis
    using assms
    by (auto simp: worker_get_def hls_logger_def split: option.splits list.splits prod.splits)
next
  case (Worker_resp w r)
  then show ?thesis
    using assms
    by (auto simp: worker_resp_def worker_response_def worker_idle_def hls_logger_def pq_put_def
        sorted_insort split: option.splits http.splits sum.splits prod.splits)
next
  case Consumer_read
  then show ?thesis
    using assms
    by (auto simp: consumer_read_def pq_put_def sorted_insort split: list.splits prod.splits)
qed

lemma queues_sorted:
  "sorted (frag_urls (exec acts (hls_init n))) \<and> sorted (frag_data (exec acts (hls_init n)))"
proof -
  have "\<And>s. sorted (frag_urls s) \<and> sorted (frag_data s) \<Longrightarrow>
          sorted (frag_urls (exec acts s)) \<and> sorted (frag_data (exec acts s))"
  proof (induction acts)
    case Nil
    then show ?case by (simp add: exec_Nil)
  next
    case (Cons a acts)
    from Cons.IH[OF queues_sorted_step[OF Cons.prems, of a]] show ?case by (simp add: exec_Cons)
  qed
  then show ?thesis by (simp add: hls_init_def)
qed

lemma absent_step: "absent k s \<Longrightarrow> absent k (step a s)"
proof (cases a)
  case (Poll r)
  then show "absent k s \<Longrightarrow> ?thesis" by (simp add: absent_def)
next
  case Poller_put
  then show "absent k s \<Longrightarrow> ?thesis"
    by (auto simp: absent_def poller_put_def split: list.splits)
next
  case Poller_timeout
  then show "absent k s \<Longrightarrow> ?thesis" by (simp add: absent_def)
next
  case (Worker_get w)
  then show "absent k s \<Longrightarrow> ?thesis"
    by (auto simp: absent_def worker_get_def hls_logger_def set_held
        split: option.splits list.splits prod.splits dest!: set_update_subset_insert[THEN subsetD])
next
  case (Worker_resp w r)
  assume ab: "absent k s"
  show ?thesis
  proof (cases "poller_done s \<or> \<not> w < length (workers s) \<or> workers s ! w = None")
    case True
    then show ?thesis using ab Worker_resp by (auto simp: worker_resp_def)
  next
    case False
    then obtain i u t where e: "workers s ! w = Some (i, u, t)" by (cases "workers s ! w") auto
    then have "Some (i, u, t) \<in> set (workers s)" using False by (metis nth_mem)
    then have ik: "i \<noteq> k" using ab by (force simp: absent_def set_held)
    have sub: "\<And>x. Some x \<in> set ((workers s)[w := None]) \<Longrightarrow> Some x \<in> set (workers s)"
      by (auto dest!: set_update_subset_insert[THEN subsetD])
    show ?thesis
      using ab ik False e Worker_resp
      by (auto simp: absent_def worker_resp_def worker_response_def worker_idle_def hls_logger_def
          set_held split: http.splits sum.splits dest!: sub)
  qed
next
  case Consumer_read
  then show "absent k s \<Longrightarrow> ?thesis"
    by (auto simp: absent_def consumer_read_def split: list.splits prod.splits)
qed

lemma absent_exec: "absent k s \<Longrightarrow> absent k (exec acts s)"
  by (induction acts arbitrary: s) (simp_all add: absent_step exec_Nil exec_Cons)

lemma stuck_step:
  assumes "absent k s" and "index s = k"
  shows "yielded (step a s) = yielded s \<and> index (step a s) = k"
proof (cases a)
  case Consumer_read
  then show ?thesis
    using assms by (auto simp: absent_def consumer_read_def split: list.splits prod.splits)
qed (use assms in simp_all)

lemma stuck_exec:
  "absent k s \<Longrightarrow> index s = k \<Longrightarrow> yielded (exec acts s) = yielded s"
proof (induction acts arbitrary: s)
  case Nil
  then show ?case by (simp add: exec_Nil)
next
  case (Cons a acts)
  have "absent k (step a s)" using Cons.prems(1) by (rule absent_step)
  moreover have "index (step a s) = k" "yielded (step a s) = yielded s"
    using stuck_step[OF Cons.prems] by simp_all
  ultimately show ?case using Cons.IH[of "step a s"] by (simp add: exec_Cons)
qed

lemmas run_defs =
  poll_def get_fragment_urls_def keep_line_def py_strip_def py_isspace_def
  new_fragments_def poller_put_def poller_timeout_def pq_full_def maxsize_def pq_put_def
  worker_get_def worker_resp_def worker_response_def worker_idle_def hls_logger_def
  consumer_read_def hls_init_def Let_def exec_Nil exec_Cons

lemma dropped_state:
  "exec [Poll (Http_response 200 (Inr ''u0'')), Poller_put, Worker_get 0,
         Worker_resp 0 (Get_failed ''reset'')] (hls_init 1) =
     \<lparr>frag_urls = [], frag_data = [], last_fragment = Some ''u0'', frag_idx = 1, pending = [],
      poller_done = False, workers = [None], index = 0, yielded = [],
      poller_puts = [(0, ''u0'', 0)],
      hls_log = [(Debug, [S ''Found'', I 1, S ''new fragments'']),
                 (Debug, [I 0, S ''Downloading fragment'', I 0]),
                 (Error, [E (TransportError ''reset'')])]\<rparr>"
  by (simp add: run_defs)

text \<open>
  A transport error stalls the consumer: the sequence 0 is enqueued, its GET raises, the
  worker drops it, and no continuation of the run yields anything.
\<close>

lemma transport_error_stalls_consumer:
  "poller_puts (exec [Poll (Http_response 200 (Inr ''u0'')), Poller_put, Worker_get 0,
                      Worker_resp 0 (Get_failed ''reset'')] (hls_init 1)) = [(0, ''u0'', 0)]
   \<and> (\<forall>more. yielded (exec more
                 (exec [Poll (Http_response 200 (Inr ''u0'')), Poller_put, Worker_get 0,
                        Worker_resp 0 (Get_failed ''reset'')] (hls_init 1))) = [])"
proof -
  let ?s = "exec [Poll (Http_response 200 (Inr ''u0'')), Poller_put, Worker_get 0,
                  Worker_resp 0 (Get_failed ''reset'')] (hls_init 1)"
  have ab: "absent 0 ?s" and ix: "index ?s = 0" and y: "yielded ?s = []"
    and pp: "poller_puts ?s = [(0, ''u0'', 0)]"
    unfolding dropped_state by (simp_all add: absent_def)
  have "\<And>more. yielded (exec more ?s) = []"
    using stuck_exec[OF ab ix] y by simp
  with pp show ?thesis by blast
qed


lemma halted_step:
  assumes "halted k s"
  shows "halted k (step a s) \<and> yielded (step a s) = yielded s"
proof (cases a)
  case (Poll r)
  then show ?thesis using assms by (simp add: halted_def poll_def)
next
  case Poller_put
  then show ?thesis using assms by (simp add: halted_def poller_put_def)
next
  case Poller_timeout
  then show ?thesis using assms by (simp add: halted_def poller_timeout_def)
next
  case (Worker_get w)
  then show ?thesis using assms by (simp add: halted_def worker_get_def)
next
  case (Worker_resp w r)
  then show ?thesis using assms by (simp add: halted_def worker_resp_def)
next
  case Consumer_read
  then show ?thesis
    using assms by (auto simp: halted_def consumer_read_def split: list.splits prod.splits)
qed

lemma halted_exec: "halted k s \<Longrightarrow> yielded (exec acts s) = yielded s"
proof (induction acts arbitrary: s)
  case Nil
  then show ?case by (simp add: exec_Nil)
next
  case (Cons a acts)
  from halted_step[OF Cons.prems, of a] Cons.IH[of "step a s"]
  show ?case by (simp add: exec_Cons)
qed

lemma finished_state:
  "exec [Poll (Http_response 200 (Inr ''u0'')), Poller_put,
         Poll (Http_response 403 (Inr []))] (hls_init 1) =
     \<lparr>frag_urls = [(0, ''u0'', 0)], frag_data = [], last_fragment = Some ''u0'', frag_idx = 1,
      pending = [], poller_done = True, workers = [None], index = 0, yielded = [],
      poller_puts = [(0, ''u0'', 0)],
      hls_log = [(Debug, [S ''Found'', I 1, S ''new fragments'']),
                 (Error, [S ''Error fetching new segments:'', E StreamFinished])]\<rparr>"
  by (simp add: run_defs)

text \<open>
  Claim C1, as stated, fails: the poller enqueues the sequence 0 and then finds the
  stream finished (status 403); \<open>_fill_queue\<close> returns and \<open>_download\<close> cancels
  the workers before the fragment is fetched, so no continuation of the run ever yields a
  payload for the sequence 0.
\<close>

theorem sequence_never_yielded_counterexample:
  "poller_puts (exec [Poll (Http_response 200 (Inr ''u0'')), Poller_put,
                      Poll (Http_response 403 (Inr []))] (hls_init 1)) = [(0, ''u0'', 0)]
   \<and> (\<forall>more. yielded (exec more
                 (exec [Poll (Http_response 200 (Inr ''u0'')), Poller_put,
                        Poll (Http_response 403 (Inr []))] (hls_init 1))) = [])"
proof -
  let ?s = "exec [Poll (Http_response 200 (Inr ''u0'')), Poller_put,
                  Poll (Http_response 403 (Inr []))] (hls_init 1)"
  have h: "halted 0 ?s" and y: "yielded ?s = []" and pp: "poller_puts ?s = [(0, ''u0'', 0)]"
    unfolding finished_state by (simp_all add: halted_def)
  have "\<And>more. yielded (exec more ?s) = []"
    using halted_exec[OF h] y by simp
  with pp show ?thesis by blast
qed

text \<open>
  A run with two workers in which the second fragment is fetched first: the consumer
  waits for the sequence 0 and then yields both payloads in order.
\<close>

lemma out_of_order_state:
  "yielded (exec [Poll (Http_response 200 (Inr ''u0\<newline>u1'')), Poller_put, Poller_put,
                  Worker_get 0, Worker_get 1,
                  Worker_resp 1 (Http_response 200 (Inr ''B'')), Consumer_read,
                  Worker_resp 0 (Http_response 200 (Inr ''A'')), Consumer_read, Consumer_read]
             (hls_init 2)) = [(0, ''A''), (1, ''B'')]
   \<and> index (exec [Poll (Http_response 200 (Inr ''u0\<newline>u1'')), Poller_put, Poller_put,
                  Worker_get 0, Worker_get 1,
                  Worker_resp 1 (Http_response 200 (Inr ''B'')), Consumer_read,
                  Worker_resp 0 (Http_response 200 (Inr ''A'')), Consumer_read, Consumer_read]
             (hls_init 2)) = 2
   \<and> frag_idx (exec [Poll (Http_response 200 (Inr ''u0\<newline>u1'')), Poller_put, Poller_put,
                  Worker_get 0, Worker_get 1,
                  Worker_resp 1 (Http_response 200 (Inr ''B'')), Consumer_read,
                  Worker_resp 0 (Http_response 200 (Inr ''A'')), Consumer_read, Consumer_read]
             (hls_init 2)) = 2"
  by (simp add: run_defs insort_key.simps)

text \<open>
  Claim C1, amended: in every state the downloader can reach, the poller has assigned
  the sequence numbers 0, 1, 2, ... in this order to the fragments it enqueued; the
  consumer has yielded the payloads of the sequences 0, 1, ..., \<open>index - 1\<close> in this
  order, one for each and without a gap, all of them sequences the poller assigned; and
  every sequence number occurs at most once among the URL queue, the workers, the data
  queue and the yields, so that no sequence can be yielded twice.
\<close>

theorem sequence_integrity:
  "map fst (poller_puts (exec acts (hls_init n))) = [0..frag_idx (exec acts (hls_init n)) - 1]
   \<and> map fst (yielded (exec acts (hls_init n))) = [0..index (exec acts (hls_init n)) - 1]
   \<and> index (exec acts (hls_init n)) \<le> frag_idx (exec acts (hls_init n))
   \<and> seqs (exec acts (hls_init n)) \<subseteq># mset [0..frag_idx (exec acts (hls_init n)) - 1]"
  using pipeline_inv_exec[OF pipeline_inv_init, of acts n] by (simp add: pipeline_inv_def)

theorem sequence_integrity_witness:
  "map fst (yielded (exec [Poll (Http_response 200 (Inr ''u0\<newline>u1'')), Poller_put, Poller_put,
                  Worker_get 0, Worker_get 1,
                  Worker_resp 1 (Http_response 200 (Inr ''B'')), Consumer_read,
                  Worker_resp 0 (Http_response 200 (Inr ''A'')), Consumer_read, Consumer_read]
             (hls_init 2))) = [0, 1]
   \<and> yielded (exec [Poll (Http_response 200 (Inr ''u0\<newline>u1'')), Poller_put, Poller_put,
                  Worker_get 0, Worker_get 1,
                  Worker_resp 1 (Http_response 200 (Inr ''B'')), Consumer_read,
                  Worker_resp 0 (Http_response 200 (Inr ''A'')), Consumer_read, Consumer_read]
             (hls_init 2)) = [(0, ''A''), (1, ''B'')]"
  using sequence_integrity[of "[Poll (Http_response 200 (Inr ''u0\<newline>u1'')), Poller_put, Poller_put,
                  Worker_get 0, Worker_get 1,
                  Worker_resp 1 (Http_response 200 (Inr ''B'')), Consumer_read,
                  Worker_resp 0 (Http_response 200 (Inr ''A'')), Consumer_read, Consumer_read]" 2]
    out_of_order_state
  by (simp add: upto_rec1)


lemma count_upto_le_1: "count (mset [i..j]) (k::int) \<le> 1"
  using distinct_upto[of i j] by (simp add: distinct_count_atmost_1)

text \<open>
  Claim C7: in a reachable state, when the GET of the fragment a worker holds raises (or
  the read of the body of a response of status at most 299 raises), the error is logged,
  the worker drops the fragment, both queues stay as they are, and in no continuation of
  the run does an entry of that sequence stand in the URL queue or in the data queue.
\<close>

theorem transport_error_drops_fragment:
  assumes reach: "s = exec acts (hls_init n)"
    and run: "\<not> poller_done s" and w: "w < length (workers s)"
    and e: "workers s ! w = Some (i, u, t)"
    and r: "r = Get_failed ex \<or> (\<exists>status. status \<le> 299 \<and> r = Http_response status (Inl ex))"
  shows "frag_urls (step (Worker_resp w r) s) = frag_urls s
       \<and> frag_data (step (Worker_resp w r) s) = frag_data s
       \<and> workers (step (Worker_resp w r) s) = (workers s)[w := None]
       \<and> hls_log (step (Worker_resp w r) s) = hls_log s @ [(Error, [E (TransportError ex)])]
       \<and> (\<forall>more. i \<notin> fst ` set (frag_urls (exec more (step (Worker_resp w r) s)))
                 \<and> i \<notin> fst ` set (frag_data (exec more (step (Worker_resp w r) s))))"
proof -
  let ?s' = "worker_resp w r s"
  have st: "frag_urls ?s' = frag_urls s" "frag_data ?s' = frag_data s"
      "workers ?s' = (workers s)[w := None]" "hls_log ?s' = hls_log s @ [(Error, [E (TransportError ex)])]"
      "frag_idx ?s' = frag_idx s" "yielded ?s' = yielded s"
    using run w e r
    by (auto simp: worker_resp_def worker_response_def worker_idle_def hls_logger_def)
  have inv: "pipeline_inv s" unfolding reach by (rule pipeline_inv_exec) (rule pipeline_inv_init)
  have rel: "add_mset (i, u, t) (mset (held ((workers s)[w := None]))) = mset (held (workers s))"
    using mset_held_release[OF w e] .
  have rel': "image_mset fst (mset (held (workers s))) =
               add_mset i (image_mset fst (mset (held ((workers s)[w := None]))))"
    using arg_cong[OF rel, of "image_mset fst"] by simp
  have sq: "seqs s = add_mset i (seqs ?s')"
    by (simp add: seqs_def st rel')
  have sub: "seqs s \<subseteq># mset [0..frag_idx s - 1]" using inv by (simp add: pipeline_inv_def)
  have "count (seqs s) i \<le> count (mset [0..frag_idx s - 1]) i"
    using sub by (rule mset_subset_eq_count)
  then have "count (seqs s) i \<le> 1" using count_upto_le_1[of 0 "frag_idx s - 1" i] by linarith
  then have "count (seqs ?s') i = 0" by (simp add: sq)
  then have notin: "i \<notin># seqs ?s'" by (simp add: count_eq_zero_iff)
  have "i \<in># seqs s" by (simp add: sq)
  then have "i \<in># mset [0..frag_idx s - 1]" using sub by (meson mset_subset_eqD)
  then have lt: "i < frag_idx s" by simp
  have ab: "absent i ?s'"
    using notin lt by (auto simp: absent_def seqs_def st(5))
  have "\<And>more. absent i (exec more ?s')" using ab by (rule absent_exec)
  then have "\<forall>more. i \<notin> fst ` set (frag_urls (exec more ?s'))
                 \<and> i \<notin> fst ` set (frag_data (exec more ?s'))"
    by (simp add: absent_def)
  with st show ?thesis by simp
qed

lemma held_state:
  "exec [Poll (Http_response 200 (Inr ''u0'')), Poller_put, Worker_get 0] (hls_init 1) =
     \<lparr>frag_urls = [], frag_data = [], last_fragment = Some ''u0'', frag_idx = 1, pending = [],
      poller_done = False, workers = [Some (0, ''u0'', 0)], index = 0, yielded = [],
      poller_puts = [(0, ''u0'', 0)],
      hls_log = [(Debug, [S ''Found'', I 1, S ''new fragments'']),
                 (Debug, [I 0, S ''Downloading fragment'', I 0])]\<rparr>"
  by (simp add: run_defs)

theorem transport_error_drops_fragment_witness:
  "frag_urls (step (Worker_resp 0 (Get_failed ''reset''))
       (exec [Poll (Http_response 200 (Inr ''u0'')), Poller_put, Worker_get 0] (hls_init 1))) = []
   \<and> frag_data (step (Worker_resp 0 (Get_failed ''reset''))
       (exec [Poll (Http_response 200 (Inr ''u0'')), Poller_put, Worker_get 0] (hls_init 1))) = []
   \<and> workers (step (Worker_resp 0 (Get_failed ''reset''))
       (exec [Poll (Http_response 200 (Inr ''u0'')), Poller_put, Worker_get 0] (hls_init 1))) = [None]
   \<and> (\<forall>more. 0 \<notin> fst ` set (frag_data (exec more (step (Worker_resp 0 (Get_failed ''reset''))
       (exec [Poll (Http_response 200 (Inr ''u0'')), Poller_put, Worker_get 0] (hls_init 1))))))"
proof -
  let ?s = "exec [Poll (Http_response 200 (Inr ''u0'')), Poller_put, Worker_get 0] (hls_init 1)"
  have a: "\<not> poller_done ?s" "0 < length (workers ?s)" "workers ?s ! 0 = Some (0, ''u0'', 0)"
    and b: "frag_urls ?s = []" "frag_data ?s = []" "workers ?s = [Some (0, ''u0'', 0)]"
    unfolding held_state by simp_all
  from transport_error_drops_fragment[OF refl a, of "Get_failed ''reset''" "''reset''"] b
  show ?thesis by simp
qed

text \<open>
  Claim C3, as stated, fails: after five responses of status 500 for a fragment the worker
  has put it back with \<open>tries = 5\<close> and the data queue is empty; only the sixth error
  response, received with \<open>tries = 5\<close>, makes the worker give up.
\<close>

theorem five_errors_counterexample:
  "frag_data (exec [Poll (Http_response 200 (Inr ''u0'')), Poller_put,
         Worker_get 0, Worker_resp 0 (Http_response 500 (Inr [])),
         Worker_get 0, Worker_resp 0 (Http_response 500 (Inr [])),
         Worker_get 0, Worker_resp 0 (Http_response 500 (Inr [])),
         Worker_get 0, Worker_resp 0 (Http_response 500 (Inr [])),
         Worker_get 0, Worker_resp 0 (Http_response 500 (Inr []))] (hls_init 1)) = []
   \<and> frag_urls (exec [Poll (Http_response 200 (Inr ''u0'')), Poller_put,
         Worker_get 0, Worker_resp 0 (Http_response 500 (Inr [])),
         Worker_get 0, Worker_resp 0 (Http_response 500 (Inr [])),
         Worker_get 0, Worker_resp 0 (Http_response 500 (Inr [])),
         Worker_get 0, Worker_resp 0 (Http_response 500 (Inr [])),
         Worker_get 0, Worker_resp 0 (Http_response 500 (Inr []))] (hls_init 1)) = [(0, ''u0'', 5)]"
  by (simp add: run_defs)

text \<open>
  Claim C3, amended: when the GET of the fragment \<open>(i, (url, tries))\<close> a worker holds
  returns a status above 299, then with \<open>tries < 5\<close> (and room in the URL queue) the
  worker puts \<open>(i, (url, tries + 1))\<close> into the URL queue and nothing into the data
  queue; with \<open>tries \<ge> 5\<close>, that is at the sixth error response for a fragment, (and room
  in the data queue) it puts \<open>(i, b'')\<close> into the data queue. When the least entry of
  the data queue is the empty payload of the expected sequence, the consumer yields zero
  bytes for it and goes on to the next sequence.
\<close>

theorem http_error_retry_then_give_up:
  assumes run: "\<not> poller_done s" and w: "w < length (workers s)"
    and e: "workers s ! w = Some (i, u, t)"
    and st: "status > 299"
  shows "(t < 5 \<and> \<not> pq_full (frag_urls s) \<longrightarrow>
            frag_urls (step (Worker_resp w (Http_response status body)) s)
              = pq_put (i, u, t + 1) (frag_urls s)
          \<and> frag_data (step (Worker_resp w (Http_response status body)) s) = frag_data s
          \<and> workers (step (Worker_resp w (Http_response status body)) s) = (workers s)[w := None])
       \<and> (5 \<le> t \<and> \<not> pq_full (frag_data s) \<longrightarrow>
            frag_data (step (Worker_resp w (Http_response status body)) s)
              = pq_put (i, []) (frag_data s)
          \<and> frag_urls (step (Worker_resp w (Http_response status body)) s) = frag_urls s
          \<and> workers (step (Worker_resp w (Http_response status body)) s) = (workers s)[w := None])
       \<and> (frag_data s2 = (index s2, []) # rest \<longrightarrow>
            yielded (step Consumer_read s2) = yielded s2 @ [(index s2, [])]
          \<and> index (step Consumer_read s2) = index s2 + 1
          \<and> frag_data (step Consumer_read s2) = rest)"
  using assms
  by (auto simp: worker_resp_def worker_response_def worker_idle_def hls_logger_def
      consumer_read_def)

lemma sixth_get_state:
  "\<not> poller_done (exec [Poll (Http_response 200 (Inr ''u0'')), Poller_put,
         Worker_get 0, Worker_resp 0 (Http_response 500 (Inr [])),
         Worker_get 0, Worker_resp 0 (Http_response 500 (Inr [])),
         Worker_get 0, Worker_resp 0 (Http_response 500 (Inr [])),
         Worker_get 0, Worker_resp 0 (Http_response 500 (Inr [])),
         Worker_get 0, Worker_resp 0 (Http_response 500 (Inr [])),
         Worker_get 0] (hls_init 1))
   \<and> workers (exec [Poll (Http_response 200 (Inr ''u0'')), Poller_put,
         Worker_get 0, Worker_resp 0 (Http_response 500 (Inr [])),
         Worker_get 0, Worker_resp 0 (Http_response 500 (Inr [])),
         Worker_get 0, Worker_resp 0 (Http_response 500 (Inr [])),
         Worker_get 0, Worker_resp 0 (Http_response 500 (Inr [])),
         Worker_get 0, Worker_resp 0 (Http_response 500 (Inr [])),
         Worker_get 0] (hls_init 1)) = [Some (0, ''u0'', 5)]
   \<and> frag_data (exec [Poll (Http_response 200 (Inr ''u0'')), Poller_put,
         Worker_get 0, Worker_resp 0 (Http_response 500 (Inr [])),
         Worker_get 0, Worker_resp 0 (Http_response 500 (Inr [])),
         Worker_get 0, Worker_resp 0 (Http_response 500 (Inr [])),
         Worker_get 0, Worker_resp 0 (Http_response 500 (Inr [])),
         Worker_get 0, Worker_resp 0 (Http_response 500 (Inr [])),
         Worker_get 0] (hls_init 1)) = []
   \<and> index (exec [Poll (Http_response 200 (Inr ''u0'')), Poller_put,
         Worker_get 0, Worker_resp 0 (Http_response 500 (Inr [])),
         Worker_get 0, Worker_resp 0 (Http_response 500 (Inr [])),
         Worker_get 0, Worker_resp 0 (Http_response 500 (Inr [])),
         Worker_get 0, Worker_resp 0 (Http_response 500 (Inr [])),
         Worker_get 0, Worker_resp 0 (Http_response 500 (Inr [])),
         Worker_get 0] (hls_init 1)) = 0
   \<and> yielded (exec [Poll (Http_response 200 (Inr ''u0'')), Poller_put,
         Worker_get 0, Worker_resp 0 (Http_response 500 (Inr [])),
         Worker_get 0, Worker_resp 0 (Http_response 500 (Inr [])),
         Worker_get 0, Worker_resp 0 (Http_response 500 (Inr [])),
         Worker_get 0, Worker_resp 0 (Http_response 500 (Inr [])),
         Worker_get 0, Worker_resp 0 (Http_response 500 (Inr [])),
         Worker_get 0] (hls_init 1)) = []"
  by (simp add: run_defs)

theorem http_error_retry_then_give_up_witness:
  "frag_data (step (Worker_resp 0 (Http_response 500 (Inr [])))
     (exec [Poll (Http_response 200 (Inr ''u0'')), Poller_put,
         Worker_get 0, Worker_resp 0 (Http_response 500 (Inr [])),
         Worker_get 0, Worker_resp 0 (Http_response 500 (Inr [])),
         Worker_get 0, Worker_resp 0 (Http_response 500 (Inr [])),
         Worker_get 0, Worker_resp 0 (Http_response 500 (Inr [])),
         Worker_get 0, Worker_resp 0 (Http_response 500 (Inr [])),
         Worker_get 0] (hls_init 1))) = [(0, [])]
   \<and> yielded (step Consumer_read (step (Worker_resp 0 (Http_response 500 (Inr [])))
     (exec [Poll (Http_response 200 (Inr ''u0'')), Poller_put,
         Worker_get 0, Worker_resp 0 (Http_response 500 (Inr [])),
         Worker_get 0, Worker_resp 0 (Http_response 500 (Inr [])),
         Worker_get 0, Worker_resp 0 (Http_response 500 (Inr [])),
         Worker_get 0, Worker_resp 0 (Http_response 500 (Inr [])),
         Worker_get 0, Worker_resp 0 (Http_response 500 (Inr [])),
         Worker_get 0] (hls_init 1)))) = [(0, [])]
   \<and> index (step Consumer_read (step (Worker_resp 0 (Http_response 500 (Inr [])))
     (exec [Poll (Http_response 200 (Inr ''u0'')), Poller_put,
         Worker_get 0, Worker_resp 0 (Http_response 500 (Inr [])),
         Worker_get 0, Worker_resp 0 (Http_response 500 (Inr [])),
         Worker_get 0, Worker_resp 0 (Http_response 500 (Inr [])),
         Worker_get 0, Worker_resp 0 (Http_response 500 (Inr [])),
         Worker_get 0, Worker_resp 0 (Http_response 500 (Inr [])),
         Worker_get 0] (hls_init 1)))) = 1"
proof -
  let ?s = "exec [Poll (Http_response 200 (Inr ''u0'')), Poller_put,
         Worker_get 0, Worker_resp 0 (Http_response 500 (Inr [])),
         Worker_get 0, Worker_resp 0 (Http_response 500 (Inr [])),
         Worker_get 0, Worker_resp 0 (Http_response 500 (Inr [])),
         Worker_get 0, Worker_resp 0 (Http_response 500 (Inr [])),
         Worker_get 0, Worker_resp 0 (Http_response 500 (Inr [])),
         Worker_get 0] (hls_init 1)"
  let ?s' = "step (Worker_resp 0 (Http_response 500 (Inr []))) ?s"
  have a: "\<not> poller_done ?s" "0 < length (workers ?s)" "workers ?s ! 0 = Some (0, ''u0'', 5)"
    and b: "frag_data ?s = []" "index ?s = 0" "yielded ?s = []"
    using sixth_get_state by simp_all
  have c: "(299::int) < 500" by simp
  note inst = http_error_retry_then_give_up[OF a c, of "Inr []" ?s' "[]"]
  from inst b have d: "frag_data ?s' = [(0, [])]"
    by (simp add: pq_full_def maxsize_def pq_put_def)
  have e: "index ?s' = 0" "yielded ?s' = []" using b by simp_all
  from inst d e have "yielded (step Consumer_read ?s') = [(0, [])] \<and> index (step Consumer_read ?s') = 1"
    by simp
  with d show ?thesis by simp
qed


end
